theory Spec2Isabelle
  imports Complex_Main "HOL-Library.Word"
begin

section \<open>Status values\<close>

text \<open>
  The \<open>Status\<close> class lives in \<open>common/status.h\<close>. Only two things are used of it
  here: whether a status is OK, and which kind of error it carries. The kinds are the
  one the storage code builds (\<open>Status::InternalError\<close>) and the ones the scan
  scheduler distinguishes.
\<close>

datatype ErrorKind =
  InternalError | OpenFailure | ReadFailure | PredicateFailure | SubmissionFailure | Cancelled

datatype Status = OK | Error ErrorKind string

fun ok :: "Status \<Rightarrow> bool" where
  "ok OK = True"
| "ok (Error k msg) = False"

section \<open>\<open>OlapScanNode::Stack\<close> (olap\_scan\_node.h, lines 67--94)\<close>

text \<open>
  The stack wraps a \<open>std::vector\<close>; the back of the vector is the end of the list.
  \<open>pop\<close> requires a non-empty stack (\<open>DCHECK(!_items.empty())\<close>): the violated
  requirement is the value \<open>None\<close>.
\<close>

datatype 'a Stack = Stack (items: "'a list")

definition reserve :: "nat \<Rightarrow> 'a Stack \<Rightarrow> 'a Stack" where
  "reserve n s = s"

definition push :: "'a \<Rightarrow> 'a Stack \<Rightarrow> 'a Stack" where
  "push p s = Stack (items s @ [p])"

definition clear :: "'a Stack \<Rightarrow> 'a Stack" where
  "clear s = Stack []"

definition pop :: "'a Stack \<Rightarrow> ('a \<times> 'a Stack) option" where
  "pop s = (if items s = [] then None
            else Some (last (items s), Stack (butlast (items s))))"

definition size_stack :: "'a Stack \<Rightarrow> nat" where
  "size_stack s = length (items s)"


definition reverse :: "'a Stack \<Rightarrow> 'a Stack" where
  "reverse s = Stack (rev (items s))"

text \<open>Pushing a run of elements, first to last, and popping \<open>n\<close> times in a row.\<close>

fun push_all :: "'a list \<Rightarrow> 'a Stack \<Rightarrow> 'a Stack" where
  "push_all [] s = s"
| "push_all (v # vs) s = push_all vs (push v s)"

fun pop_n :: "nat \<Rightarrow> 'a Stack \<Rightarrow> ('a list \<times> 'a Stack) option" where
  "pop_n 0 s = Some ([], s)"
| "pop_n (Suc n) s =
     (case pop s of
        None \<Rightarrow> None
      | Some (v, s') \<Rightarrow> (case pop_n n s' of
                          None \<Rightarrow> None
                        | Some (vs, s'') \<Rightarrow> Some (v # vs, s'')))"

section \<open>Zone map index writer (zone\_map\_index.cpp)\<close>

text \<open>
  \<open>CppType\<close> is the template's value type. The writer is instantiated for integer,
  decimal, date and string types and for \<open>FLOAT\<close> and \<open>DOUBLE\<close>, so the model fixes no
  order on the values: it takes the type's comparison operators as data, and they need
  not be total.
\<close>

record 'a ZoneMap =
  min_value :: 'a
  max_value :: 'a
  has_null :: bool
  has_not_null :: bool

text \<open>
  \<open>Field\<close> is declared in \<open>storage/field.h\<close>. What the writer uses of it is taken as
  data: the value \<open>set_to_max\<close> writes, the value \<open>set_to_min\<close> writes, the string form
  \<open>to_zone_map_string\<close> gives a value, and the operators \<open><\<close> and \<open><=\<close> of the field's
  \<open>CppType\<close>; \<open>a > b\<close> is \<open>b < a\<close>. \<open>Field::compare\<close> is taken to be the three-way
  comparison built from \<open><\<close>: negative, zero or positive.
\<close>

record 'a Field =
  set_to_max :: 'a
  set_to_min :: 'a
  to_zone_map_string :: "'a \<Rightarrow> string"
  cpp_less :: "'a \<Rightarrow> 'a \<Rightarrow> bool"
  cpp_less_eq :: "'a \<Rightarrow> 'a \<Rightarrow> bool"

definition compare :: "'a Field \<Rightarrow> 'a \<Rightarrow> 'a \<Rightarrow> int" where
  "compare f l r = (if cpp_less f l r then - 1 else if cpp_less f r l then 1 else 0)"

record ZoneMapPB =
  pb_min :: string
  pb_max :: string
  pb_has_null :: bool
  pb_has_not_null :: bool

definition to_proto :: "'a Field \<Rightarrow> 'a ZoneMap \<Rightarrow> ZoneMapPB" where
  "to_proto f z =
     \<lparr>pb_min = to_zone_map_string f (min_value z),
      pb_max = to_zone_map_string f (max_value z),
      pb_has_null = has_null z,
      pb_has_not_null = has_not_null z\<rparr>"

record 'a ZoneMapIndexWriterImpl =
  field_of :: "'a Field"
  page_zone_map :: "'a ZoneMap"
  segment_zone_map :: "'a ZoneMap"
  serialized_values :: "string list"
  estimated_size :: "64 word"

definition reset_zone_map :: "'a Field \<Rightarrow> 'a ZoneMap \<Rightarrow> 'a ZoneMap" where
  "reset_zone_map f z =
     z\<lparr>min_value := set_to_max f, max_value := set_to_min f,
       has_null := False, has_not_null := False\<rparr>"

text \<open>The constructor: both zone maps are allocated and reset.\<close>

definition ZoneMapIndexWriterImpl_new :: "'a Field \<Rightarrow> 'a ZoneMapIndexWriterImpl" where
  "ZoneMapIndexWriterImpl_new f =
     (let fresh = \<lparr>min_value = set_to_max f, max_value = set_to_min f,
                   has_null = False, has_not_null = False\<rparr>
      in \<lparr>field_of = f,
          page_zone_map = reset_zone_map f fresh,
          segment_zone_map = reset_zone_map f fresh,
          serialized_values = [],
          estimated_size = 0\<rparr>)"

text \<open>
  \<open>std::minmax_element\<close> with \<open><\<close>, by value. The library walks the range two elements
  at a time: the smaller of a pair is compared with the minimum so far and the larger
  with the maximum so far; the minimum moves on a strictly smaller element (the first
  smallest is kept) and the maximum on an element that is not smaller (the last largest
  is kept). A range of one element returns that element twice; an empty range has no
  element to point at.
\<close>

fun minmax_pairs :: "('a \<Rightarrow> 'a \<Rightarrow> bool) \<Rightarrow> 'a list \<Rightarrow> 'a \<Rightarrow> 'a \<Rightarrow> 'a \<times> 'a" where
  "minmax_pairs lt [] mn mx = (mn, mx)"
| "minmax_pairs lt [i] mn mx =
     (if lt i mn then (i, mx) else if \<not> lt i mx then (mn, i) else (mn, mx))"
| "minmax_pairs lt (i # j # rest) mn mx =
     (if lt j i
      then minmax_pairs lt rest (if lt j mn then j else mn) (if \<not> lt i mx then i else mx)
      else minmax_pairs lt rest (if lt i mn then i else mn) (if \<not> lt j mx then j else mx))"

fun minmax_element :: "('a \<Rightarrow> 'a \<Rightarrow> bool) \<Rightarrow> 'a list \<Rightarrow> ('a \<times> 'a) option" where
  "minmax_element lt [] = None"
| "minmax_element lt [x] = Some (x, x)"
| "minmax_element lt (x # y # rest) =
     Some (if lt y x then minmax_pairs lt rest y x else minmax_pairs lt rest x y)"

text \<open>
  \<open>add_values(values, count)\<close> reads \<open>values[0 .. count-1]\<close>. A buffer shorter than
  \<open>count\<close> would be read past its end; that is the value \<open>None\<close>.
\<close>

definition add_values ::
  "'a list \<Rightarrow> nat \<Rightarrow> 'a ZoneMapIndexWriterImpl \<Rightarrow> 'a ZoneMapIndexWriterImpl option" where
  "add_values vals count w =
     (if count > 0 then
        (if length vals < count then None
         else case minmax_element (cpp_less (field_of w)) (take count vals) of
                None \<Rightarrow> None
              | Some (pmin, pmax) \<Rightarrow>
                  let pz = (page_zone_map w)\<lparr>has_not_null := True\<rparr>;
                      pz1 = (if cpp_less (field_of w) pmin (min_value pz)
                             then pz\<lparr>min_value := pmin\<rparr> else pz);
                      pz2 = (if cpp_less (field_of w) (max_value pz1) pmax
                             then pz1\<lparr>max_value := pmax\<rparr> else pz1)
                  in Some (w\<lparr>page_zone_map := pz2\<rparr>))
      else Some w)"

text \<open>\<open>add_nulls(uint32_t count)\<close>: the count is a 32-bit unsigned value.\<close>

definition add_nulls :: "32 word \<Rightarrow> 'a ZoneMapIndexWriterImpl \<Rightarrow> 'a ZoneMapIndexWriterImpl" where
  "add_nulls count w =
     w\<lparr>page_zone_map := (page_zone_map w)\<lparr>has_null := (has_null (page_zone_map w) \<or> count > 0)\<rparr>\<rparr>"

text \<open>
  \<open>flush\<close>. Protobuf's \<open>SerializeToString\<close> is a parameter: \<open>None\<close> is its failure.
  The segment zone map is updated and the page zone map reset before the
  serialization is attempted, so both happen on the failing path as well.
\<close>

definition flush ::
  "(ZoneMapPB \<Rightarrow> string option) \<Rightarrow> 'a ZoneMapIndexWriterImpl
     \<Rightarrow> Status \<times> 'a ZoneMapIndexWriterImpl" where
  "flush SerializeToString w =
     (let f = field_of w; pz = page_zone_map w; sz = segment_zone_map w;
          sz1 = (if compare f (min_value sz) (min_value pz) > 0
                 then sz\<lparr>min_value := min_value pz\<rparr> else sz);
          sz2 = (if compare f (max_value sz1) (max_value pz) < 0
                 then sz1\<lparr>max_value := max_value pz\<rparr> else sz1);
          sz3 = (if has_null pz then sz2\<lparr>has_null := True\<rparr> else sz2);
          sz4 = (if has_not_null pz then sz3\<lparr>has_not_null := True\<rparr> else sz3);
          zone_map_pb = to_proto f pz;
          w1 = w\<lparr>segment_zone_map := sz4, page_zone_map := reset_zone_map f pz\<rparr>
      in case SerializeToString zone_map_pb of
           None \<Rightarrow> (Error InternalError ''serialize zone map failed'', w1)
         | Some serialized_zone_map \<Rightarrow>
             (OK, w1\<lparr>estimated_size :=
                        estimated_size w1 + of_nat (length serialized_zone_map) + 4,
                     serialized_values := serialized_values w1 @ [serialized_zone_map]\<rparr>))"

text \<open>
  A run of writer calls. \<open>flush\<close>'s status goes to the caller; the writer keeps the state
  the call left behind whatever the status was.
\<close>

datatype 'a WriterCall = AddValues "'a list" nat | AddNulls "32 word" | Flush

fun writer_call ::
  "(ZoneMapPB \<Rightarrow> string option) \<Rightarrow> 'a WriterCall \<Rightarrow> 'a ZoneMapIndexWriterImpl
     \<Rightarrow> 'a ZoneMapIndexWriterImpl option" where
  "writer_call ser (AddValues vals count) w = add_values vals count w"
| "writer_call ser (AddNulls count) w = Some (add_nulls count w)"
| "writer_call ser Flush w = Some (snd (flush ser w))"

fun writer_calls ::
  "(ZoneMapPB \<Rightarrow> string option) \<Rightarrow> 'a WriterCall list \<Rightarrow> 'a ZoneMapIndexWriterImpl
     \<Rightarrow> 'a ZoneMapIndexWriterImpl option" where
  "writer_calls ser [] w = Some w"
| "writer_calls ser (c # cs) w =
     (case writer_call ser c w of None \<Rightarrow> None | Some w' \<Rightarrow> writer_calls ser cs w')"

text \<open>
  Bookkeeping for the statements below: the values of all flushed pages after a run of
  calls, given the values added to the current page and not yet flushed (\<open>pending\<close>)
  and those flushed before the run; and all the values a run of calls adds.
\<close>

fun flushed_values :: "'a WriterCall list \<Rightarrow> 'a list \<Rightarrow> 'a list \<Rightarrow> 'a list" where
  "flushed_values [] pending flushed = flushed"
| "flushed_values (AddValues vals count # cs) pending flushed =
     flushed_values cs (pending @ take count vals) flushed"
| "flushed_values (AddNulls count # cs) pending flushed = flushed_values cs pending flushed"
| "flushed_values (Flush # cs) pending flushed = flushed_values cs [] (flushed @ pending)"

fun added_values :: "'a WriterCall list \<Rightarrow> 'a list" where
  "added_values [] = []"
| "added_values (AddValues vals count # cs) = take count vals @ added_values cs"
| "added_values (AddNulls count # cs) = added_values cs"
| "added_values (Flush # cs) = added_values cs"

text \<open>
  The operators of a field order a set of values when, on that set, \<open><\<close> is a strict
  linear order and \<open><=\<close> is \<open><\<close> or equal. A zone map bounds a list of values when every
  value lies between its minimum and its maximum by \<open><=\<close>, and a non-empty list shows in
  \<open>has_not_null\<close>.
\<close>

definition ordered_on :: "'a Field \<Rightarrow> 'a set \<Rightarrow> bool" where
  "ordered_on f S =
     (\<forall>a \<in> S. \<forall>b \<in> S.
        (cpp_less_eq f a b \<longleftrightarrow> cpp_less f a b \<or> a = b) \<and>
        \<not> cpp_less f a a \<and>
        (cpp_less f a b \<or> a = b \<or> cpp_less f b a) \<and>
        (\<forall>c \<in> S. cpp_less f a b \<and> cpp_less f b c \<longrightarrow> cpp_less f a c))"

definition bounds :: "'a Field \<Rightarrow> 'a ZoneMap \<Rightarrow> 'a list \<Rightarrow> bool" where
  "bounds f z vs =
     ((\<forall>v \<in> set vs. cpp_less_eq f (min_value z) v \<and> cpp_less_eq f v (max_value z)) \<and>
      (vs \<noteq> [] \<longrightarrow> has_not_null z))"

text \<open>
  The writer tracks the values of a set \<open>S\<close>: the values added to the current page, the
  flushed ones, the field's extreme values and the four bounds all lie in \<open>S\<close>, the page
  zone map bounds the page's values and the segment zone map the flushed ones.
\<close>

definition tracks ::
  "'a set \<Rightarrow> 'a ZoneMapIndexWriterImpl \<Rightarrow> 'a list \<Rightarrow> 'a list \<Rightarrow> bool" where
  "tracks S w pending flushed =
     (set pending \<subseteq> S \<and> set flushed \<subseteq> S \<and>
      set_to_max (field_of w) \<in> S \<and> set_to_min (field_of w) \<in> S \<and>
      min_value (page_zone_map w) \<in> S \<and> max_value (page_zone_map w) \<in> S \<and>
      min_value (segment_zone_map w) \<in> S \<and> max_value (segment_zone_map w) \<in> S \<and>
      bounds (field_of w) (page_zone_map w) pending \<and>
      bounds (field_of w) (segment_zone_map w) flushed)"

text \<open>
  The values of a \<open>FLOAT\<close> or \<open>DOUBLE\<close> column as far as comparison goes: a number or
  NaN. Every comparison with NaN is false.
\<close>

datatype FloatValue = NaN | Num real

fun float_less :: "FloatValue \<Rightarrow> FloatValue \<Rightarrow> bool" where
  "float_less (Num a) (Num b) = (a < b)"
| "float_less NaN y = False"
| "float_less (Num a) NaN = False"

fun float_less_eq :: "FloatValue \<Rightarrow> FloatValue \<Rightarrow> bool" where
  "float_less_eq (Num a) (Num b) = (a \<le> b)"
| "float_less_eq NaN y = False"
| "float_less_eq (Num a) NaN = False"


section \<open>Global dictionary codes (dictcode\_column\_iterator.cpp)\<close>

text \<open>
  The iterator state that \<open>_build_to_global_dict\<close> touches: the vector
  \<open>_local_to_global_holder\<close> and the pointer \<open>_local_to_global\<close> into it, kept as
  an offset (\<open>None\<close> is the pointer before it is set).

  Taken as data from the collaborators that are not part of this file: the local
  dictionary of the file column (\<open>dict_size()\<close> is its length and
  \<open>decode_dict_codes\<close> looks the codes up in it) and the global dictionary
  \<open>_global_dict\<close>, a map from words to codes.
\<close>

record GlobalDictCodeColumnIterator =
  local_to_global_holder :: "int list"
  local_to_global :: "nat option"

definition decode_dict_codes :: "string list \<Rightarrow> nat list \<Rightarrow> nat \<Rightarrow> string list" where
  "decode_dict_codes dict codes n = map (\<lambda>c. dict ! c) (take n codes)"

text \<open>
  The second loop, over the indices still to visit. A word missing from the global
  dictionary ends the call with an error when it is not empty and is skipped when it
  is; a word that is found stores its code at \<open>_local_to_global[dict_codes[i]]\<close>, which
  is the holder at one more than that index. The error message formats \<open>slice.data\<close>, a
  \<open>char*\<close>: the text printed is what memory holds from the start of the slice to the next
  zero byte, which the slice's length does not bound. \<open>data_text i\<close> is that text for the
  slice at index \<open>i\<close>.
\<close>

fun build_codes ::
  "(nat \<Rightarrow> string) \<Rightarrow> (string \<rightharpoonup> int) \<Rightarrow> string list \<Rightarrow> nat list \<Rightarrow> nat list \<Rightarrow> int list
     \<Rightarrow> Status \<times> int list" where
  "build_codes data_text global_dict column dict_codes [] holder = (OK, holder)"
| "build_codes data_text global_dict column dict_codes (i # rest) holder =
     (let slice = column ! i in
      case global_dict slice of
        None \<Rightarrow>
          if length slice > 0
          then (Error InternalError (''not found slice:'' @ data_text i @ '' in global dict''),
                holder)
          else build_codes data_text global_dict column dict_codes rest holder
      | Some code \<Rightarrow>
          build_codes data_text global_dict column dict_codes rest
            (holder[1 + dict_codes ! i := code]))"

definition build_to_global_dict ::
  "(nat \<Rightarrow> string) \<Rightarrow> string list \<Rightarrow> (string \<rightharpoonup> int) \<Rightarrow> GlobalDictCodeColumnIterator
     \<Rightarrow> Status \<times> GlobalDictCodeColumnIterator" where
  "build_to_global_dict data_text dict global_dict it =
     (if length (local_to_global_holder it) > 0 then (OK, it)
      else
        let dict_size = length dict;
            dict_codes = [0 ..< dict_size];
            column = decode_dict_codes dict dict_codes dict_size;
            holder = replicate (dict_size + 2) 0;
            (st, holder') =
              build_codes data_text global_dict column dict_codes [0 ..< dict_size] holder
        in (st, it\<lparr>local_to_global_holder := holder', local_to_global := Some 1\<rparr>))"


section \<open>Scan scheduling (olap\_scan\_node.h)\<close>

text \<open>
  The header declares the scan node's state and the signatures of its methods; the
  method bodies are in \<open>olap_scan_node.cpp\<close>. The record below keeps the members that
  take part in scheduling, with the member initialisers of the header
  (\<open>_num_scanners = 0\<close>, \<open>_chunks_per_scanner = 10\<close>, \<open>_start = false\<close>, counters
  at 0). Chunks, scanners and scan ranges are handles. \<open>result_shutdown\<close> is the
  end-of-stream mark of the blocking queue \<open>_result_chunks\<close>.
\<close>

type_synonym ChunkPtr = nat
type_synonym TabletScanner = nat
type_synonym TInternalScanRange = nat

record OlapScanNode =
  scan_ranges :: "TInternalScanRange list"
  num_scanners :: int
  chunks_per_scanner :: int
  start :: bool
  status :: Status
  chunk_pool :: "ChunkPtr Stack"
  pending_scanners :: "TabletScanner Stack"
  result_chunks :: "ChunkPtr list"
  result_shutdown :: bool
  scanner_submit_count :: int
  running_threads :: int
  closed_scanners :: int

definition kMaxConcurrency :: int where
  "kMaxConcurrency = 50"

definition OlapScanNode_new :: OlapScanNode where
  "OlapScanNode_new =
     \<lparr>scan_ranges = [], num_scanners = 0, chunks_per_scanner = 10, start = False,
      status = OK, chunk_pool = Stack [], pending_scanners = Stack [],
      result_chunks = [], result_shutdown = False,
      scanner_submit_count = 0, running_threads = 0, closed_scanners = 0\<rparr>"

text \<open>
  Modelled from the spec: the body of \<open>OlapScanNode::_update_status\<close> and of
  \<open>OlapScanNode::_get_status\<close>. ``A single latched error value for the whole scan;
  once set to non-OK it is never overwritten (first-error-wins)'': a write lands only
  while the stored status is OK.
\<close>

definition update_status :: "Status \<Rightarrow> OlapScanNode \<Rightarrow> OlapScanNode" where
  "update_status st n = (if ok (status n) then n\<lparr>status := st\<rparr> else n)"

definition get_status :: "OlapScanNode \<Rightarrow> Status" where
  "get_status n = status n"

text \<open>
  Modelled from the spec: the chunk pool's operations, whose code is in
  \<open>olap_scan_node.cpp\<close>. The pool is ``a LIFO stack of available Chunks bounded by
  \<open>num_scanners \<times> chunks_per_scanner\<close>''. \<open>acquire\<close> ``returns a buffer if
  available, else none (never blocks)''. \<open>release\<close> ``returns a buffer for reuse; if
  the pool is at capacity, the chunk is dropped instead of stored''.
  \<open>fill_chunk_pool\<close> (the spec's \<open>refill\<close>) ``eagerly allocates up to \<open>n\<close> buffers'':
  the new buffers are given as a list and each goes through the pool's bound.
\<close>

definition capacity :: "OlapScanNode \<Rightarrow> int" where
  "capacity n = num_scanners n * chunks_per_scanner n"

definition acquire :: "OlapScanNode \<Rightarrow> ChunkPtr option \<times> OlapScanNode" where
  "acquire n =
     (case pop (chunk_pool n) of
        None \<Rightarrow> (None, n)
      | Some (c, rest) \<Rightarrow> (Some c, n\<lparr>chunk_pool := rest\<rparr>))"

definition release :: "ChunkPtr \<Rightarrow> OlapScanNode \<Rightarrow> OlapScanNode" where
  "release c n =
     (if capacity n \<le> int (size_stack (chunk_pool n)) then n
      else n\<lparr>chunk_pool := push c (chunk_pool n)\<rparr>)"

fun fill_chunk_pool :: "ChunkPtr list \<Rightarrow> OlapScanNode \<Rightarrow> OlapScanNode" where
  "fill_chunk_pool [] n = n"
| "fill_chunk_pool (c # cs) n = fill_chunk_pool cs (release c n)"

text \<open>
  Modelled from the spec: closing a scanner, as far as the scheduler sees it. The
  closed-scanner counter goes up, and the scanner that closes last signals
  end-of-stream on the result stream.
\<close>

definition close_scanner :: "OlapScanNode \<Rightarrow> OlapScanNode" where
  "close_scanner n =
     (let n1 = n\<lparr>closed_scanners := closed_scanners n + 1\<rparr>
      in if closed_scanners n1 = num_scanners n1 then n1\<lparr>result_shutdown := True\<rparr> else n1)"

text \<open>
  Modelled from the spec: the admission algorithm of section 4.3, whose code is in
  \<open>olap_scan_node.cpp\<close>. The flag \<open>accepted\<close> is the answer of the shared worker
  pool's \<open>try_submit\<close>.
  \<^enum> ``Try \<open>ChunkPool.acquire()\<close>. If none available, push the Scanner onto
    \<open>PendingScannerQueue\<close> and return.''
  \<^enum> ``A single latched ScanStatus is consulted before every new submission; once
    non-OK, no new work is admitted'' and the scanner closes without being
    resubmitted; its chunk goes back to the pool.
  \<^enum> ``If a Chunk is available and the running-worker count is below the global
    concurrency ceiling, submit the Scanner to the shared worker pool; otherwise
    requeue as pending.'' A submission the pool refuses is ``retried by re-queuing as
    pending''. A requeued scanner gives its chunk back.
  A submission counts in \<open>_running_threads\<close> and in \<open>_scanner_submit_count\<close>.
\<close>

definition admission :: "TabletScanner \<Rightarrow> bool \<Rightarrow> OlapScanNode \<Rightarrow> OlapScanNode" where
  "admission sc accepted n =
     (case acquire n of
        (None, n1) \<Rightarrow> n1\<lparr>pending_scanners := push sc (pending_scanners n1)\<rparr>
      | (Some c, n1) \<Rightarrow>
          if \<not> ok (get_status n1) then close_scanner (release c n1)
          else if running_threads n1 < kMaxConcurrency \<and> accepted
          then n1\<lparr>running_threads := running_threads n1 + 1,
                  scanner_submit_count := scanner_submit_count n1 + 1\<rparr>
          else (release c n1)\<lparr>pending_scanners := push sc (pending_scanners (release c n1))\<rparr>)"

text \<open>
  Modelled from the spec: the re-admission trigger. ``Every time the consumer returns a
  Chunk to ChunkPool, the coordinator pops one pending Scanner (if any) and re-runs the
  admission algorithm for it.''
\<close>

definition chunk_returned :: "ChunkPtr \<Rightarrow> bool \<Rightarrow> OlapScanNode \<Rightarrow> OlapScanNode" where
  "chunk_returned c accepted n =
     (let n1 = release c n in
      case pop (pending_scanners n1) of
        None \<Rightarrow> n1
      | Some (sc, rest) \<Rightarrow> admission sc accepted (n1\<lparr>pending_scanners := rest\<rparr>))"

text \<open>
  Modelled from the spec: the worker execution body \<open>_scanner_thread\<close>, given what the
  scanner's \<open>get_next\<close> did with the chunk \<open>c\<close> it holds. The run-unit leaves the
  running count when it ends. ``On success push the chunk to ResultStream and re-run
  the admission algorithm for this Scanner; on exhaustion, mark Scanner Finished,
  increment closed-scanner counter, and, if this was the last Scanner, signal
  end-of-stream; on error, latch ScanStatus, mark Scanner Failed, and signal
  end-of-stream with the error.''
\<close>

datatype Outcome = Filled | Exhausted | Failed ErrorKind string

definition scanner_thread ::
  "TabletScanner \<Rightarrow> ChunkPtr \<Rightarrow> Outcome \<Rightarrow> bool \<Rightarrow> OlapScanNode \<Rightarrow> OlapScanNode" where
  "scanner_thread sc c outcome accepted n =
     (let n1 = n\<lparr>running_threads := running_threads n - 1\<rparr> in
      case outcome of
        Filled \<Rightarrow> admission sc accepted (n1\<lparr>result_chunks := result_chunks n1 @ [c]\<rparr>)
      | Exhausted \<Rightarrow> close_scanner (release c n1)
      | Failed k msg \<Rightarrow>
          (close_scanner (update_status (Error k msg) (release c n1)))\<lparr>result_shutdown := True\<rparr>)"

text \<open>
  Modelled from the spec: \<open>_close_pending_scanners\<close>. ``PendingScannerQueue is drained
  and its Scanners closed.''
\<close>

fun close_all :: "nat \<Rightarrow> OlapScanNode \<Rightarrow> OlapScanNode" where
  "close_all 0 n = n"
| "close_all (Suc k) n = close_all k (close_scanner n)"

definition close_pending_scanners :: "OlapScanNode \<Rightarrow> OlapScanNode" where
  "close_pending_scanners n =
     close_all (size_stack (pending_scanners n)) (n\<lparr>pending_scanners := clear (pending_scanners n)\<rparr>)"

text \<open>
  Modelled from the spec: \<open>set_scan_ranges\<close>, which ``fails if called after scanning
  has begun''; before that it registers the ranges.
\<close>

definition set_scan_ranges ::
  "TInternalScanRange list \<Rightarrow> OlapScanNode \<Rightarrow> Status \<times> OlapScanNode" where
  "set_scan_ranges ranges n =
     (if start n then (Error InternalError ''scan already started'', n)
      else (OK, n\<lparr>scan_ranges := scan_ranges n @ ranges\<rparr>))"

text \<open>
  Modelled from the spec: \<open>_start_scan\<close>, the step from idle to scanning that the
  first \<open>get_next\<close> triggers. There is one scanner per scan range (``consumed by exactly
  one Scanner''); ``the coordinator seeds the ChunkPool, submits an initial wave of
  Scanners''. Starting is idempotent.
\<close>

fun admit_all :: "TabletScanner list \<Rightarrow> bool \<Rightarrow> OlapScanNode \<Rightarrow> OlapScanNode" where
  "admit_all [] accepted n = n"
| "admit_all (sc # scs) accepted n = admit_all scs accepted (admission sc accepted n)"

definition start_scan :: "ChunkPtr list \<Rightarrow> bool \<Rightarrow> OlapScanNode \<Rightarrow> OlapScanNode" where
  "start_scan chunks accepted n =
     (if start n then n
      else
        let n1 = n\<lparr>start := True, num_scanners := int (length (scan_ranges n))\<rparr>;
            n2 = fill_chunk_pool chunks n1
        in admit_all [0 ..< length (scan_ranges n)] accepted n2)"

text \<open>The operations on one scan node, and runs of them.\<close>

datatype ScanOp =
    UpdateStatus Status
  | Admit TabletScanner bool
  | ChunkReturned ChunkPtr bool
  | ScannerThread TabletScanner ChunkPtr Outcome bool
  | FillChunkPool "ChunkPtr list"
  | ClosePendingScanners
  | SetScanRanges "TInternalScanRange list"
  | StartScan "ChunkPtr list" bool

fun scan_op :: "ScanOp \<Rightarrow> OlapScanNode \<Rightarrow> OlapScanNode" where
  "scan_op (UpdateStatus st) n = update_status st n"
| "scan_op (Admit sc accepted) n = admission sc accepted n"
| "scan_op (ChunkReturned c accepted) n = chunk_returned c accepted n"
| "scan_op (ScannerThread sc c outcome accepted) n = scanner_thread sc c outcome accepted n"
| "scan_op (FillChunkPool cs) n = fill_chunk_pool cs n"
| "scan_op ClosePendingScanners n = close_pending_scanners n"
| "scan_op (SetScanRanges ranges) n = snd (set_scan_ranges ranges n)"
| "scan_op (StartScan chunks accepted) n = start_scan chunks accepted n"

fun scan_ops :: "ScanOp list \<Rightarrow> OlapScanNode \<Rightarrow> OlapScanNode" where
  "scan_ops [] n = n"
| "scan_ops (op # ops) n = scan_ops ops (scan_op op n)"


text \<open>
  The pool's bound as an invariant of the node: the pool is within its capacity, the
  scanner count is still 0 before the scan starts, and the chunks-per-scanner setting
  is not negative.
\<close>

definition pool_bounded :: "OlapScanNode \<Rightarrow> bool" where
  "pool_bounded n =
     (int (size_stack (chunk_pool n)) \<le> capacity n \<and>
      (\<not> start n \<longrightarrow> num_scanners n = 0) \<and>
      0 \<le> chunks_per_scanner n)"

section \<open>Sample inputs\<close>

text \<open>
  A field of 8-bit signed values with a serializer that always succeeds, the writer
  after the batch 3, 1, 2 has been added to a new one, and a run of writer calls over two
  pages.
\<close>

definition tinyint_field :: "int Field" where
  "tinyint_field = \<lparr>set_to_max = 127, set_to_min = - 128, to_zone_map_string = (\<lambda>v. []),
                     cpp_less = (<), cpp_less_eq = (\<le>)\<rparr>"

definition serialize_ok :: "ZoneMapPB \<Rightarrow> string option" where
  "serialize_ok pb = Some (pb_min pb @ pb_max pb)"

definition one_page :: "int ZoneMapIndexWriterImpl" where
  "one_page = (ZoneMapIndexWriterImpl_new tinyint_field)
                \<lparr>page_zone_map := \<lparr>min_value = 1, max_value = 3,
                                   has_null = False, has_not_null = True\<rparr>\<rparr>"

definition two_pages :: "int WriterCall list" where
  "two_pages = [AddValues [3, 1, 2] 3, AddNulls 1, Flush, AddValues [7, 9] 1, Flush]"

text \<open>
  A field of single-precision values: \<open>set_to_max\<close> writes the largest finite value and
  \<open>set_to_min\<close> the lowest one.
\<close>

definition FLT_MAX :: real where
  "FLT_MAX = 340282346638528859811704183484516925440"

definition float_field :: "FloatValue Field" where
  "float_field = \<lparr>set_to_max = Num FLT_MAX, set_to_min = Num (- FLT_MAX),
                   to_zone_map_string = (\<lambda>v. []),
                   cpp_less = float_less, cpp_less_eq = float_less_eq\<rparr>"

text \<open>
  A global dictionary, the texts found at the slices of a local dictionary, an iterator
  whose mapping is not built yet and one whose mapping is built.
\<close>

definition sample_global_dict :: "string \<rightharpoonup> int" where
  "sample_global_dict = map_of [(''a'', 5), (''b'', 6)]"

definition sample_data_text :: "nat \<Rightarrow> string" where
  "sample_data_text i = (if i = 0 then ''a'' else if i = 2 then ''zz'' else [])"

definition fresh_iterator :: GlobalDictCodeColumnIterator where
  "fresh_iterator = \<lparr>local_to_global_holder = [], local_to_global = None\<rparr>"

definition built_iterator :: GlobalDictCodeColumnIterator where
  "built_iterator = \<lparr>local_to_global_holder = [0, 5, 0], local_to_global = Some 1\<rparr>"

text \<open>
  Scan nodes: one whose latch holds a read failure while a scanner is still running, one
  at the concurrency ceiling with a chunk in its pool, and one that registered two ranges
  and started with no chunk at hand, so that both its scanners are parked.
\<close>

definition failed_node :: OlapScanNode where
  "failed_node = OlapScanNode_new\<lparr>num_scanners := 2, chunk_pool := Stack [4, 5],
                                  status := Error ReadFailure ''io'',
                                  scanner_submit_count := 2, running_threads := 1\<rparr>"

definition saturated_node :: OlapScanNode where
  "saturated_node = OlapScanNode_new\<lparr>num_scanners := 60, chunk_pool := Stack [7],
                                     running_threads := 50\<rparr>"

definition started_node :: OlapScanNode where
  "started_node = start_scan [] True (snd (set_scan_ranges [11, 12] OlapScanNode_new))"

section \<open>Stack and storage lemmas\<close>

lemma pop_push: "pop (push v s) = Some (v, s)"
  by (simp add: pop_def push_def)

lemma pop_n_push_all: "pop_n (length vs) (push_all vs s) = Some (rev vs, s)"
proof (induction vs arbitrary: s rule: rev_induct)
  case Nil thus ?case by simp
next
  case (snoc v vs)
  have "push_all (vs @ [v]) s = push v (push_all vs s)" for s
    by (induction vs arbitrary: s) simp_all
  thus ?case using snoc by (simp add: pop_push)
qed

subsection \<open>Order facts on a set the operators order\<close>

lemma le_refl_on: "ordered_on f S \<Longrightarrow> a \<in> S \<Longrightarrow> cpp_less_eq f a a"
  unfolding ordered_on_def by blast

lemma less_imp_le_on:
  "ordered_on f S \<Longrightarrow> a \<in> S \<Longrightarrow> b \<in> S \<Longrightarrow> cpp_less f a b \<Longrightarrow> cpp_less_eq f a b"
  unfolding ordered_on_def by blast

lemma not_less_imp_le_on:
  "ordered_on f S \<Longrightarrow> a \<in> S \<Longrightarrow> b \<in> S \<Longrightarrow> \<not> cpp_less f a b \<Longrightarrow> cpp_less_eq f b a"
  unfolding ordered_on_def by blast

lemma le_trans_on:
  assumes o: "ordered_on f S" and m: "a \<in> S" "b \<in> S" "c \<in> S"
      and ab: "cpp_less_eq f a b" and bc: "cpp_less_eq f b c"
  shows "cpp_less_eq f a c"
proof -
  from o m ab have 1: "cpp_less f a b \<or> a = b" unfolding ordered_on_def by blast
  from o m bc have 2: "cpp_less f b c \<or> b = c" unfolding ordered_on_def by blast
  from o m have tr: "cpp_less f a b \<and> cpp_less f b c \<longrightarrow> cpp_less f a c"
    unfolding ordered_on_def by blast
  from 1 2 tr have "cpp_less f a c \<or> a = c" by blast
  with o m show ?thesis unfolding ordered_on_def by blast
qed

lemma less_asym_on:
  assumes o: "ordered_on f S" and m: "a \<in> S" "b \<in> S" and ab: "cpp_less f a b"
  shows "\<not> cpp_less f b a"
proof
  assume "cpp_less f b a"
  with ab o m have "cpp_less f a a" unfolding ordered_on_def by blast
  with o m show False unfolding ordered_on_def by blast
qed

lemma ordered_on_subset: "ordered_on f S \<Longrightarrow> T \<subseteq> S \<Longrightarrow> ordered_on f T"
  unfolding ordered_on_def by blast

text \<open>Moving a minimum or a maximum as the code does.\<close>

lemma min_step_on:
  assumes o: "ordered_on f S" and m: "a \<in> S" "mn \<in> S"
  defines "mn' \<equiv> (if cpp_less f a mn then a else mn)"
  shows "mn' \<in> S" and "cpp_less_eq f mn' a" and "cpp_less_eq f mn' mn"
  using o m le_refl_on [OF o] less_imp_le_on [OF o] not_less_imp_le_on [OF o]
  by (auto simp: mn'_def)

lemma max_step_on:
  assumes o: "ordered_on f S" and m: "a \<in> S" "mx \<in> S"
  defines "mx' \<equiv> (if \<not> cpp_less f a mx then a else mx)"
  shows "mx' \<in> S" and "cpp_less_eq f a mx'" and "cpp_less_eq f mx mx'"
  using o m le_refl_on [OF o] less_imp_le_on [OF o] not_less_imp_le_on [OF o]
  by (auto simp: mx'_def)

lemma minmax_pairs_bounds:
  assumes o: "ordered_on f S"
  shows "set xs \<subseteq> S \<Longrightarrow> mn \<in> S \<Longrightarrow> mx \<in> S \<Longrightarrow> cpp_less_eq f mn mx \<Longrightarrow>
         minmax_pairs (cpp_less f) xs mn mx = (p, q) \<Longrightarrow>
         p \<in> S \<and> q \<in> S \<and> cpp_less_eq f p mn \<and> cpp_less_eq f mx q \<and>
         (\<forall>v \<in> set xs. cpp_less_eq f p v \<and> cpp_less_eq f v q)"
proof (induction "cpp_less f" xs mn mx arbitrary: p q rule: minmax_pairs.induct)
  case (1 mn mx)
  thus ?case using le_refl_on [OF o] by simp
next
  case (2 i mn mx)
  hence i: "i \<in> S" by simp
  note r = le_refl_on [OF o] and l = less_imp_le_on [OF o] and n = not_less_imp_le_on [OF o]
    and t = le_trans_on [OF o]
  show ?case
  proof (cases "cpp_less f i mn")
    case True
    with "2.prems" have pq: "p = i" "q = mx" by simp_all
    have "cpp_less_eq f i mn" using l i "2.prems"(2) True by blast
    moreover from this have "cpp_less_eq f i mx" using t i "2.prems"(2,3,4) by blast
    ultimately show ?thesis using pq i "2.prems"(2,3) r by simp
  next
    case False
    hence mi: "cpp_less_eq f mn i" using n i "2.prems"(2) by blast
    show ?thesis
    proof (cases "cpp_less f i mx")
      case True
      with False "2.prems" have pq: "p = mn" "q = mx" by simp_all
      have "cpp_less_eq f i mx" using l i "2.prems"(3) True by blast
      thus ?thesis using pq mi "2.prems"(2,3) r by simp
    next
      case nl: False
      with False "2.prems" have pq: "p = mn" "q = i" by simp_all
      have "cpp_less_eq f mx i" using n i "2.prems"(3) nl by blast
      thus ?thesis using pq mi i "2.prems"(2) r by simp
    qed
  qed
next
  case (3 i j rest mn mx)
  hence i: "i \<in> S" and j: "j \<in> S" and rest: "set rest \<subseteq> S" by simp_all
  note mn = "3.prems"(2) and mx = "3.prems"(3) and mm = "3.prems"(4)
  note l = less_imp_le_on [OF o] and n = not_less_imp_le_on [OF o] and t = le_trans_on [OF o]
  show ?case
  proof (cases "cpp_less f j i")
    case True
    let ?mn = "if cpp_less f j mn then j else mn"
    let ?mx = "if \<not> cpp_less f i mx then i else mx"
    from min_step_on [OF o j mn] have a: "?mn \<in> S" "cpp_less_eq f ?mn j" "cpp_less_eq f ?mn mn"
      by simp_all
    from max_step_on [OF o i mx] have b: "?mx \<in> S" "cpp_less_eq f i ?mx" "cpp_less_eq f mx ?mx"
      by simp_all
    have ji: "cpp_less_eq f j i" using l j i True by blast
    have mm': "cpp_less_eq f ?mn ?mx"
      using t [OF a(1) mn b(1) a(3)] t [OF mn mx b(1) mm b(3)] by blast
    from "3.prems"(5) True have run: "minmax_pairs (cpp_less f) rest ?mn ?mx = (p, q)" by simp
    from "3.hyps"(1) [OF True rest a(1) b(1) mm' run]
    have ih: "p \<in> S" "q \<in> S" "cpp_less_eq f p ?mn" "cpp_less_eq f ?mx q"
      "\<forall>v \<in> set rest. cpp_less_eq f p v \<and> cpp_less_eq f v q" by simp_all
    have pj: "cpp_less_eq f p j" by (rule t [OF ih(1) a(1) j ih(3) a(2)])
    have iq: "cpp_less_eq f i q" by (rule t [OF i b(1) ih(2) b(2) ih(4)])
    have pi: "cpp_less_eq f p i" by (rule t [OF ih(1) j i pj ji])
    have jq: "cpp_less_eq f j q" by (rule t [OF j i ih(2) ji iq])
    have pmn: "cpp_less_eq f p mn" by (rule t [OF ih(1) a(1) mn ih(3) a(3)])
    have mxq: "cpp_less_eq f mx q" by (rule t [OF mx b(1) ih(2) b(3) ih(4)])
    show ?thesis using ih(1,2,5) pj iq pi jq pmn mxq by simp
  next
    case False
    let ?mn = "if cpp_less f i mn then i else mn"
    let ?mx = "if \<not> cpp_less f j mx then j else mx"
    from min_step_on [OF o i mn] have a: "?mn \<in> S" "cpp_less_eq f ?mn i" "cpp_less_eq f ?mn mn"
      by simp_all
    from max_step_on [OF o j mx] have b: "?mx \<in> S" "cpp_less_eq f j ?mx" "cpp_less_eq f mx ?mx"
      by simp_all
    have ij: "cpp_less_eq f i j" using n j i False by blast
    have mm': "cpp_less_eq f ?mn ?mx"
      using t [OF a(1) mn b(1) a(3)] t [OF mn mx b(1) mm b(3)] by blast
    from "3.prems"(5) False have run: "minmax_pairs (cpp_less f) rest ?mn ?mx = (p, q)" by simp
    from "3.hyps"(2) [OF False rest a(1) b(1) mm' run]
    have ih: "p \<in> S" "q \<in> S" "cpp_less_eq f p ?mn" "cpp_less_eq f ?mx q"
      "\<forall>v \<in> set rest. cpp_less_eq f p v \<and> cpp_less_eq f v q" by simp_all
    have pi: "cpp_less_eq f p i" by (rule t [OF ih(1) a(1) i ih(3) a(2)])
    have jq: "cpp_less_eq f j q" by (rule t [OF j b(1) ih(2) b(2) ih(4)])
    have pj: "cpp_less_eq f p j" by (rule t [OF ih(1) i j pi ij])
    have iq: "cpp_less_eq f i q" by (rule t [OF i j ih(2) ij jq])
    have pmn: "cpp_less_eq f p mn" by (rule t [OF ih(1) a(1) mn ih(3) a(3)])
    have mxq: "cpp_less_eq f mx q" by (rule t [OF mx b(1) ih(2) b(3) ih(4)])
    show ?thesis using ih(1,2,5) pj iq pi jq pmn mxq by simp
  qed
qed

lemma minmax_element_bounds:
  assumes o: "ordered_on f S" and sub: "set xs \<subseteq> S"
      and mm: "minmax_element (cpp_less f) xs = Some (p, q)"
  shows "p \<in> S \<and> q \<in> S \<and> (\<forall>v \<in> set xs. cpp_less_eq f p v \<and> cpp_less_eq f v q)"
proof -
  consider "xs = []" | x where "xs = [x]" | x y rest where "xs = x # y # rest"
    by (cases xs; cases "tl xs") auto
  thus ?thesis
  proof cases
    case 1
    with mm show ?thesis by simp
  next
    case 2
    with mm sub show ?thesis using le_refl_on [OF o] by auto
  next
    case 3
    note xs = 3
    from sub xs have x: "x \<in> S" and y: "y \<in> S" and rest: "set rest \<subseteq> S" by simp_all
  note l = less_imp_le_on [OF o] and n = not_less_imp_le_on [OF o] and t = le_trans_on [OF o]
  show ?thesis
  proof (cases "cpp_less f y x")
    case True
    hence yx: "cpp_less_eq f y x" using l y x by blast
    from mm xs True have run: "minmax_pairs (cpp_less f) rest y x = (p, q)" by simp
    from minmax_pairs_bounds [OF o rest y x yx run]
    have ih: "p \<in> S" "q \<in> S" "cpp_less_eq f p y" "cpp_less_eq f x q"
      "\<forall>v \<in> set rest. cpp_less_eq f p v \<and> cpp_less_eq f v q" by simp_all
    have "cpp_less_eq f p x" by (rule t [OF ih(1) y x ih(3) yx])
    moreover have "cpp_less_eq f y q" by (rule t [OF y x ih(2) yx ih(4)])
    ultimately show ?thesis using ih xs by simp
  next
    case False
    hence xy: "cpp_less_eq f x y" using n y x by blast
    from mm xs False have run: "minmax_pairs (cpp_less f) rest x y = (p, q)" by simp
    from minmax_pairs_bounds [OF o rest x y xy run]
    have ih: "p \<in> S" "q \<in> S" "cpp_less_eq f p x" "cpp_less_eq f y q"
      "\<forall>v \<in> set rest. cpp_less_eq f p v \<and> cpp_less_eq f v q" by simp_all
    have "cpp_less_eq f p y" by (rule t [OF ih(1) x y ih(3) xy])
    moreover have "cpp_less_eq f x q" by (rule t [OF x y ih(2) xy ih(4)])
    ultimately show ?thesis using ih xs by simp
  qed
  qed
qed

lemma minmax_element_Some: "xs \<noteq> [] \<Longrightarrow> \<exists>p q. minmax_element lt xs = Some (p, q)"
  by (cases "(lt, xs)" rule: minmax_element.cases) auto


subsection \<open>The page zone map\<close>

lemma add_values_zero: "add_values vals 0 w = Some w"
  by (simp add: add_values_def)

lemma add_values_bounds:
  assumes o: "ordered_on (field_of w) S"
      and mn: "min_value (page_zone_map w) \<in> S" and mx: "max_value (page_zone_map w) \<in> S"
      and sub: "set (take count vals) \<subseteq> S"
      and pos: "0 < count" and len: "count \<le> length vals"
  shows "\<exists>w'. add_values vals count w = Some w' \<and>
           has_not_null (page_zone_map w') \<and>
           segment_zone_map w' = segment_zone_map w \<and>
           field_of w' = field_of w \<and>
           min_value (page_zone_map w') \<in> S \<and> max_value (page_zone_map w') \<in> S \<and>
           cpp_less_eq (field_of w) (min_value (page_zone_map w')) (min_value (page_zone_map w)) \<and>
           cpp_less_eq (field_of w) (max_value (page_zone_map w)) (max_value (page_zone_map w')) \<and>
           (\<forall>v \<in> set (take count vals).
              cpp_less_eq (field_of w) (min_value (page_zone_map w')) v \<and>
              cpp_less_eq (field_of w) v (max_value (page_zone_map w')))"
proof -
  let ?f = "field_of w"
  let ?mn = "min_value (page_zone_map w)" and ?mx = "max_value (page_zone_map w)"
  from pos len have ne: "take count vals \<noteq> []" by auto
  then obtain pmin pmax where
    mm: "minmax_element (cpp_less ?f) (take count vals) = Some (pmin, pmax)"
    using minmax_element_Some by blast
  from minmax_element_bounds [OF o sub mm]
  have p: "pmin \<in> S" and q: "pmax \<in> S"
    and b: "\<forall>v \<in> set (take count vals). cpp_less_eq ?f pmin v \<and> cpp_less_eq ?f v pmax"
    by simp_all
  note r = le_refl_on [OF o] and l = less_imp_le_on [OF o] and n = not_less_imp_le_on [OF o]
    and t = le_trans_on [OF o]
  let ?mn' = "if cpp_less ?f pmin ?mn then pmin else ?mn"
  let ?mx' = "if cpp_less ?f ?mx pmax then pmax else ?mx"
  from min_step_on [OF o p mn]
  have a: "?mn' \<in> S" "cpp_less_eq ?f ?mn' pmin" "cpp_less_eq ?f ?mn' ?mn" by simp_all
  have c: "?mx' \<in> S" "cpp_less_eq ?f pmax ?mx'" "cpp_less_eq ?f ?mx ?mx'"
    using q mx r l n by auto
  have lo: "cpp_less_eq ?f ?mn' v" if "v \<in> set (take count vals)" for v
    using t [OF a(1) p _ a(2)] b sub that by blast
  have hi: "cpp_less_eq ?f v ?mx'" if "v \<in> set (take count vals)" for v
    using t [OF _ q c(1) _ c(2)] b sub that by blast
  have res: "add_values vals count w =
               Some (w\<lparr>page_zone_map := (page_zone_map w)\<lparr>has_not_null := True,
                         min_value := ?mn', max_value := ?mx'\<rparr>\<rparr>)"
    using pos len mm by (simp add: add_values_def Let_def)
  show ?thesis
    unfolding res using a c lo hi by simp
qed

subsection \<open>Flushing a page\<close>

lemma flush_segment:
  "segment_zone_map (snd (flush ser w)) =
     \<lparr>min_value = (if compare (field_of w) (min_value (segment_zone_map w))
                         (min_value (page_zone_map w)) > 0
                   then min_value (page_zone_map w) else min_value (segment_zone_map w)),
      max_value = (if compare (field_of w) (max_value (segment_zone_map w))
                         (max_value (page_zone_map w)) < 0
                   then max_value (page_zone_map w) else max_value (segment_zone_map w)),
      has_null = (has_null (segment_zone_map w) \<or> has_null (page_zone_map w)),
      has_not_null = (has_not_null (segment_zone_map w) \<or> has_not_null (page_zone_map w))\<rparr>"
  by (cases "ser (to_proto (field_of w) (page_zone_map w))")
     (auto simp: flush_def Let_def)

lemma flush_page:
  "page_zone_map (snd (flush ser w)) =
     \<lparr>min_value = set_to_max (field_of w), max_value = set_to_min (field_of w),
      has_null = False, has_not_null = False\<rparr>"
  by (cases "ser (to_proto (field_of w) (page_zone_map w))")
     (auto simp: flush_def Let_def reset_zone_map_def)

lemma flush_field: "field_of (snd (flush ser w)) = field_of w"
  by (cases "ser (to_proto (field_of w) (page_zone_map w))")
     (auto simp: flush_def Let_def)

lemma compare_pos_on:
  assumes "ordered_on f S" "a \<in> S" "b \<in> S"
  shows "compare f a b > 0 \<longleftrightarrow> cpp_less f b a"
  using less_asym_on [OF assms(1) assms(3) assms(2)] by (auto simp: compare_def)

lemma compare_neg: "compare f a b < 0 \<longleftrightarrow> cpp_less f a b"
  by (simp add: compare_def)

lemma flush_min_on:
  assumes o: "ordered_on (field_of w) S"
      and s: "min_value (segment_zone_map w) \<in> S" and p: "min_value (page_zone_map w) \<in> S"
  shows "min_value (segment_zone_map (snd (flush ser w))) \<in> S"
    and "min_value (segment_zone_map (snd (flush ser w))) = min_value (segment_zone_map w) \<or>
         min_value (segment_zone_map (snd (flush ser w))) = min_value (page_zone_map w)"
    and "cpp_less_eq (field_of w) (min_value (segment_zone_map (snd (flush ser w))))
           (min_value (segment_zone_map w))"
    and "cpp_less_eq (field_of w) (min_value (segment_zone_map (snd (flush ser w))))
           (min_value (page_zone_map w))"
  using s p le_refl_on [OF o] less_imp_le_on [OF o] not_less_imp_le_on [OF o]
  by (auto simp: flush_segment compare_pos_on [OF o s p])

lemma flush_max_on:
  assumes o: "ordered_on (field_of w) S"
      and s: "max_value (segment_zone_map w) \<in> S" and p: "max_value (page_zone_map w) \<in> S"
  shows "max_value (segment_zone_map (snd (flush ser w))) \<in> S"
    and "max_value (segment_zone_map (snd (flush ser w))) = max_value (segment_zone_map w) \<or>
         max_value (segment_zone_map (snd (flush ser w))) = max_value (page_zone_map w)"
    and "cpp_less_eq (field_of w) (max_value (segment_zone_map w))
           (max_value (segment_zone_map (snd (flush ser w))))"
    and "cpp_less_eq (field_of w) (max_value (page_zone_map w))
           (max_value (segment_zone_map (snd (flush ser w))))"
  using s p le_refl_on [OF o] less_imp_le_on [OF o] not_less_imp_le_on [OF o]
  by (auto simp: flush_segment compare_neg)


subsection \<open>Runs of writer calls\<close>

lemma tracks_add_values:
  assumes o: "ordered_on (field_of w) S" and tr: "tracks S w pending flushed"
      and sub: "set (take count vals) \<subseteq> S"
      and av: "add_values vals count w = Some w1"
  shows "tracks S w1 (pending @ take count vals) flushed \<and> field_of w1 = field_of w"
proof (cases "count = 0")
  case True
  with av tr show ?thesis by (simp add: add_values_zero)
next
  case False
  hence pos: "0 < count" by simp
  from av False have len: "count \<le> length vals"
    by (auto simp: add_values_def split: if_splits)
  let ?f = "field_of w"
  from tr have mn: "min_value (page_zone_map w) \<in> S" and mx: "max_value (page_zone_map w) \<in> S"
    and pin: "set pending \<subseteq> S" and pb: "bounds ?f (page_zone_map w) pending"
    by (simp_all add: tracks_def)
  from add_values_bounds [OF o mn mx sub pos len] av
  have nn: "has_not_null (page_zone_map w1)"
    and seg: "segment_zone_map w1 = segment_zone_map w"
    and fld: "field_of w1 = ?f"
    and mn1: "min_value (page_zone_map w1) \<in> S" and mx1: "max_value (page_zone_map w1) \<in> S"
    and lo: "cpp_less_eq ?f (min_value (page_zone_map w1)) (min_value (page_zone_map w))"
    and hi: "cpp_less_eq ?f (max_value (page_zone_map w)) (max_value (page_zone_map w1))"
    and new: "\<forall>v \<in> set (take count vals).
                cpp_less_eq ?f (min_value (page_zone_map w1)) v \<and>
                cpp_less_eq ?f v (max_value (page_zone_map w1))"
    by auto
  note t = le_trans_on [OF o]
  have old: "cpp_less_eq ?f (min_value (page_zone_map w1)) v \<and>
             cpp_less_eq ?f v (max_value (page_zone_map w1))" if "v \<in> set pending" for v
  proof -
    from that pin have v: "v \<in> S" by blast
    from that pb have "cpp_less_eq ?f (min_value (page_zone_map w)) v"
      and "cpp_less_eq ?f v (max_value (page_zone_map w))" by (simp_all add: bounds_def)
    thus ?thesis using t [OF mn1 mn v lo] t [OF v mx mx1 _ hi] by blast
  qed
  have "bounds ?f (page_zone_map w1) (pending @ take count vals)"
    using old new nn by (auto simp: bounds_def)
  thus ?thesis using tr sub seg fld mn1 mx1 by (simp add: tracks_def)
qed

lemma tracks_add_nulls:
  "tracks S w pending flushed \<Longrightarrow> tracks S (add_nulls count w) pending flushed"
  by (simp add: tracks_def add_nulls_def bounds_def)

lemma tracks_flush:
  assumes o: "ordered_on (field_of w) S" and tr: "tracks S w pending flushed"
  shows "tracks S (snd (flush ser w)) [] (flushed @ pending)"
proof -
  let ?f = "field_of w" and ?w = "snd (flush ser w)"
  from tr have pin: "set pending \<subseteq> S" and fin: "set flushed \<subseteq> S"
    and ex: "set_to_max ?f \<in> S" "set_to_min ?f \<in> S"
    and pm: "min_value (page_zone_map w) \<in> S" "max_value (page_zone_map w) \<in> S"
    and sm: "min_value (segment_zone_map w) \<in> S" "max_value (segment_zone_map w) \<in> S"
    and pb: "bounds ?f (page_zone_map w) pending"
    and sb: "bounds ?f (segment_zone_map w) flushed"
    by (simp_all add: tracks_def)
  note mn = flush_min_on [OF o sm(1) pm(1), of ser]
  note mx = flush_max_on [OF o sm(2) pm(2), of ser]
  note t = le_trans_on [OF o]
  have fl: "cpp_less_eq ?f (min_value (segment_zone_map ?w)) v \<and>
            cpp_less_eq ?f v (max_value (segment_zone_map ?w))" if "v \<in> set flushed" for v
  proof -
    from that fin have v: "v \<in> S" by blast
    from that sb have "cpp_less_eq ?f (min_value (segment_zone_map w)) v"
      and "cpp_less_eq ?f v (max_value (segment_zone_map w))" by (simp_all add: bounds_def)
    thus ?thesis using t [OF mn(1) sm(1) v mn(3)] t [OF v sm(2) mx(1) _ mx(3)] by blast
  qed
  have pe: "cpp_less_eq ?f (min_value (segment_zone_map ?w)) v \<and>
            cpp_less_eq ?f v (max_value (segment_zone_map ?w))" if "v \<in> set pending" for v
  proof -
    from that pin have v: "v \<in> S" by blast
    from that pb have "cpp_less_eq ?f (min_value (page_zone_map w)) v"
      and "cpp_less_eq ?f v (max_value (page_zone_map w))" by (simp_all add: bounds_def)
    thus ?thesis using t [OF mn(1) pm(1) v mn(4)] t [OF v pm(2) mx(1) _ mx(4)] by blast
  qed
  have nn: "flushed @ pending \<noteq> [] \<longrightarrow> has_not_null (segment_zone_map ?w)"
    using pb sb by (auto simp: bounds_def flush_segment)
  have "bounds ?f (segment_zone_map ?w) (flushed @ pending)"
    using fl pe nn by (auto simp: bounds_def)
  moreover have "bounds ?f (page_zone_map ?w) []" by (simp add: bounds_def)
  ultimately show ?thesis
    using pin fin ex mn(1) mx(1) by (simp add: tracks_def flush_field flush_page)
qed

lemma writer_calls_tracks:
  "ordered_on (field_of w) S \<Longrightarrow> tracks S w pending flushed \<Longrightarrow>
   set (added_values cs) \<subseteq> S \<Longrightarrow> writer_calls ser cs w = Some w' \<Longrightarrow>
   (\<exists>p. tracks S w' p (flushed_values cs pending flushed)) \<and> field_of w' = field_of w"
proof (induction cs arbitrary: w pending flushed)
  case Nil
  thus ?case by auto
next
  case (Cons c cs)
  show ?case
  proof (cases c)
    case (AddValues vals count)
    with Cons.prems obtain w1 where w1: "add_values vals count w = Some w1"
      and rest: "writer_calls ser cs w1 = Some w'" by (auto split: option.splits)
    from Cons.prems(3) AddValues have sub: "set (take count vals) \<subseteq> S"
      and sub': "set (added_values cs) \<subseteq> S" by simp_all
    from tracks_add_values [OF Cons.prems(1,2) sub w1]
    have tr: "tracks S w1 (pending @ take count vals) flushed" and f: "field_of w1 = field_of w"
      by simp_all
    from Cons.prems(1) f have o: "ordered_on (field_of w1) S" by simp
    from Cons.IH [OF o tr sub' rest] show ?thesis using AddValues f by simp
  next
    case (AddNulls count)
    with Cons.prems have rest: "writer_calls ser cs (add_nulls count w) = Some w'" by simp
    from Cons.prems(3) AddNulls have sub': "set (added_values cs) \<subseteq> S" by simp
    have f: "field_of (add_nulls count w) = field_of w" by (simp add: add_nulls_def)
    have o: "ordered_on (field_of (add_nulls count w)) S"
      using Cons.prems(1) by (simp add: f)
    from Cons.IH [OF o tracks_add_nulls [OF Cons.prems(2)] sub' rest]
    show ?thesis using AddNulls f by simp
  next
    case Flush
    with Cons.prems have rest: "writer_calls ser cs (snd (flush ser w)) = Some w'" by simp
    from Cons.prems(3) Flush have sub': "set (added_values cs) \<subseteq> S" by simp
    have o: "ordered_on (field_of (snd (flush ser w))) S"
      using Cons.prems(1) by (simp add: flush_field)
    from Cons.IH [OF o tracks_flush [OF Cons.prems(1,2)] sub' rest]
    show ?thesis using Flush by (simp add: flush_field)
  qed
qed

lemma new_tracks:
  "set_to_max f \<in> S \<Longrightarrow> set_to_min f \<in> S \<Longrightarrow> tracks S (ZoneMapIndexWriterImpl_new f) [] []"
  by (simp add: tracks_def ZoneMapIndexWriterImpl_new_def reset_zone_map_def bounds_def Let_def)

lemma new_field: "field_of (ZoneMapIndexWriterImpl_new f) = f"
  by (simp add: ZoneMapIndexWriterImpl_new_def Let_def)

lemma writer_calls_segment_bounds:
  assumes o: "ordered_on f (insert (set_to_max f) (insert (set_to_min f) (set (added_values cs))))"
      and run: "writer_calls ser cs (ZoneMapIndexWriterImpl_new f) = Some w'"
  shows "bounds f (segment_zone_map w') (flushed_values cs [] []) \<and> field_of w' = f"
proof -
  let ?S = "insert (set_to_max f) (insert (set_to_min f) (set (added_values cs)))"
  have tr: "tracks ?S (ZoneMapIndexWriterImpl_new f) [] []" by (rule new_tracks) simp_all
  have o': "ordered_on (field_of (ZoneMapIndexWriterImpl_new f)) ?S" using o by (simp add: new_field)
  have sub: "set (added_values cs) \<subseteq> ?S" by blast
  from writer_calls_tracks [OF o' tr sub run]
  obtain p where "tracks ?S w' p (flushed_values cs [] [])" and "field_of w' = f"
    by (auto simp: new_field)
  thus ?thesis by (simp add: tracks_def)
qed


subsection \<open>Integer and floating-point fields\<close>

lemma tinyint_ordered_on: "ordered_on tinyint_field S"
  by (auto simp: ordered_on_def tinyint_field_def)

lemma float_ordered_on:
  assumes "NaN \<notin> S"
  shows "ordered_on float_field S"
  unfolding ordered_on_def
proof (intro ballI conjI impI)
  fix a b assume "a \<in> S" "b \<in> S"
  with assms obtain x y where ab: "a = Num x" "b = Num y"
    by (cases a; cases b) auto
  show "cpp_less_eq float_field a b \<longleftrightarrow> cpp_less float_field a b \<or> a = b"
    using ab by (auto simp: float_field_def)
  show "\<not> cpp_less float_field a a" using ab by (simp add: float_field_def)
  show "cpp_less float_field a b \<or> a = b \<or> cpp_less float_field b a"
    using ab by (auto simp: float_field_def)
  fix c assume "c \<in> S" and h: "cpp_less float_field a b \<and> cpp_less float_field b c"
  with assms obtain z where c: "c = Num z" by (cases c) auto
  show "cpp_less float_field a c" using ab c h by (simp add: float_field_def)
qed

subsection \<open>Building the code mapping\<close>

lemma build_codes_length:
  "length (snd (build_codes t g column codes is holder)) = length holder"
  by (induction "is" arbitrary: holder) (auto simp: Let_def split: option.splits)

lemma build_codes_error:
  "fst (build_codes t g column codes is holder) \<noteq> OK \<longleftrightarrow>
     (\<exists>i \<in> set is. column ! i \<noteq> [] \<and> g (column ! i) = None)"
  by (induction "is" arbitrary: holder) (auto simp: Let_def split: option.splits)

lemma build_codes_status:
  "fst (build_codes t g column codes is holder) = OK \<or>
   (\<exists>msg. fst (build_codes t g column codes is holder) = Error InternalError msg)"
  by (induction "is" arbitrary: holder) (auto simp: Let_def split: option.splits)

lemma decode_all: "decode_dict_codes dict [0 ..< length dict] (length dict) = dict"
  by (simp add: decode_dict_codes_def map_nth)

lemma build_first_status:
  assumes "local_to_global_holder it = []"
  shows "fst (build_to_global_dict t dict g it) =
           fst (build_codes t g dict [0 ..< length dict] [0 ..< length dict]
                  (replicate (length dict + 2) 0))"
  using assms by (simp add: build_to_global_dict_def Let_def decode_all split: prod.splits)

lemma build_first_holder:
  assumes "local_to_global_holder it = []"
  shows "length (local_to_global_holder (snd (build_to_global_dict t dict g it))) = length dict + 2"
proof -
  have "local_to_global_holder (snd (build_to_global_dict t dict g it)) =
          snd (build_codes t g dict [0 ..< length dict] [0 ..< length dict]
                  (replicate (length dict + 2) 0))"
    using assms by (simp add: build_to_global_dict_def Let_def decode_all split: prod.splits)
  thus ?thesis by (simp add: build_codes_length)
qed

lemma build_again:
  "0 < length (local_to_global_holder it) \<Longrightarrow> build_to_global_dict t dict g it = (OK, it)"
  by (simp add: build_to_global_dict_def)

lemma missing_word_iff:
  "(\<exists>i \<in> set [0 ..< length dict]. dict ! i \<noteq> [] \<and> g (dict ! i) = None) \<longleftrightarrow>
   (\<exists>s \<in> set dict. s \<noteq> [] \<and> g s = None)"
proof
  assume "\<exists>i \<in> set [0 ..< length dict]. dict ! i \<noteq> [] \<and> g (dict ! i) = None"
  then obtain i where "i < length dict" "dict ! i \<noteq> []" "g (dict ! i) = None" by auto
  moreover from this have "dict ! i \<in> set dict" by simp
  ultimately show "\<exists>s \<in> set dict. s \<noteq> [] \<and> g s = None" by blast
next
  assume "\<exists>s \<in> set dict. s \<noteq> [] \<and> g s = None"
  then obtain s where "s \<in> set dict" "s \<noteq> []" "g s = None" by blast
  moreover from this obtain i where "i < length dict" "dict ! i = s"
    by (auto simp: in_set_conv_nth)
  ultimately show "\<exists>i \<in> set [0 ..< length dict]. dict ! i \<noteq> [] \<and> g (dict ! i) = None"
    by auto
qed

section \<open>Scan scheduling lemmas\<close>

lemma release_frame [simp]:
  "status (release c n) = status n"
  "start (release c n) = start n"
  "scan_ranges (release c n) = scan_ranges n"
  "num_scanners (release c n) = num_scanners n"
  "chunks_per_scanner (release c n) = chunks_per_scanner n"
  "running_threads (release c n) = running_threads n"
  "scanner_submit_count (release c n) = scanner_submit_count n"
  "pending_scanners (release c n) = pending_scanners n"
  "capacity (release c n) = capacity n"
  by (simp_all add: release_def capacity_def)

lemma release_pool_bound:
  "int (size_stack (chunk_pool n)) \<le> capacity n \<Longrightarrow>
   int (size_stack (chunk_pool (release c n))) \<le> capacity n"
  by (simp add: release_def size_stack_def push_def)

lemma release_at_capacity:
  "capacity n \<le> int (size_stack (chunk_pool n)) \<Longrightarrow> release c n = n"
  by (simp add: release_def)

lemma close_scanner_frame [simp]:
  "status (close_scanner n) = status n"
  "start (close_scanner n) = start n"
  "scan_ranges (close_scanner n) = scan_ranges n"
  "num_scanners (close_scanner n) = num_scanners n"
  "chunks_per_scanner (close_scanner n) = chunks_per_scanner n"
  "running_threads (close_scanner n) = running_threads n"
  "scanner_submit_count (close_scanner n) = scanner_submit_count n"
  "pending_scanners (close_scanner n) = pending_scanners n"
  "chunk_pool (close_scanner n) = chunk_pool n"
  "capacity (close_scanner n) = capacity n"
  by (simp_all add: close_scanner_def Let_def capacity_def)

lemma update_status_frame [simp]:
  "start (update_status st n) = start n"
  "scan_ranges (update_status st n) = scan_ranges n"
  "num_scanners (update_status st n) = num_scanners n"
  "chunks_per_scanner (update_status st n) = chunks_per_scanner n"
  "running_threads (update_status st n) = running_threads n"
  "scanner_submit_count (update_status st n) = scanner_submit_count n"
  "pending_scanners (update_status st n) = pending_scanners n"
  "chunk_pool (update_status st n) = chunk_pool n"
  "capacity (update_status st n) = capacity n"
  by (simp_all add: update_status_def capacity_def)

lemma update_status_latched: "\<not> ok (status n) \<Longrightarrow> update_status st n = n"
  by (simp add: update_status_def)

lemma acquire_cases:
  obtains (none) "items (chunk_pool n) = []" "acquire n = (None, n)"
  | (some) "items (chunk_pool n) \<noteq> []"
      "acquire n = (Some (last (items (chunk_pool n))),
                    n\<lparr>chunk_pool := Stack (butlast (items (chunk_pool n)))\<rparr>)"
  by (cases "items (chunk_pool n) = []") (auto simp: acquire_def pop_def)

lemma admission_frame [simp]:
  "status (admission sc a n) = status n"
  "start (admission sc a n) = start n"
  "scan_ranges (admission sc a n) = scan_ranges n"
  "num_scanners (admission sc a n) = num_scanners n"
  "chunks_per_scanner (admission sc a n) = chunks_per_scanner n"
  "capacity (admission sc a n) = capacity n"
  by (cases n rule: acquire_cases; simp add: admission_def get_status_def capacity_def)+

lemma admission_pool_bound:
  assumes "int (size_stack (chunk_pool n)) \<le> capacity n"
  shows "int (size_stack (chunk_pool (admission sc a n))) \<le> capacity n"
proof (cases n rule: acquire_cases)
  case none
  thus ?thesis using assms by (simp add: admission_def)
next
  case some
  let ?n1 = "n\<lparr>chunk_pool := Stack (butlast (items (chunk_pool n)))\<rparr>"
  have c1: "capacity ?n1 = capacity n" by (simp add: capacity_def)
  have "int (size_stack (chunk_pool ?n1)) \<le> capacity ?n1"
    using assms by (simp add: size_stack_def c1)
  hence r: "int (size_stack (chunk_pool (release c ?n1))) \<le> capacity n" for c
    using release_pool_bound [of ?n1 c] by (simp add: c1)
  have p: "int (size_stack (chunk_pool ?n1)) \<le> capacity n"
    using assms by (simp add: size_stack_def)
  show ?thesis
    using some r p by (simp add: admission_def)
qed

lemma admission_latched:
  "\<not> ok (status n) \<Longrightarrow>
   scanner_submit_count (admission sc a n) = scanner_submit_count n \<and>
   running_threads (admission sc a n) = running_threads n"
  by (cases n rule: acquire_cases) (auto simp: admission_def get_status_def)



lemma fill_chunk_pool_frame [simp]:
  "status (fill_chunk_pool cs n) = status n"
  "start (fill_chunk_pool cs n) = start n"
  "scan_ranges (fill_chunk_pool cs n) = scan_ranges n"
  "num_scanners (fill_chunk_pool cs n) = num_scanners n"
  "chunks_per_scanner (fill_chunk_pool cs n) = chunks_per_scanner n"
  "running_threads (fill_chunk_pool cs n) = running_threads n"
  "scanner_submit_count (fill_chunk_pool cs n) = scanner_submit_count n"
  "pending_scanners (fill_chunk_pool cs n) = pending_scanners n"
  "capacity (fill_chunk_pool cs n) = capacity n"
  by (induction cs arbitrary: n; simp)+

lemma fill_chunk_pool_bound:
  "int (size_stack (chunk_pool n)) \<le> capacity n \<Longrightarrow>
   int (size_stack (chunk_pool (fill_chunk_pool cs n))) \<le> capacity n"
proof (induction cs arbitrary: n)
  case Nil thus ?case by simp
next
  case (Cons c cs)
  from Cons.IH [of "release c n"] release_pool_bound [OF Cons.prems, of c]
  show ?case by simp
qed

lemma close_all_frame [simp]:
  "status (close_all k n) = status n"
  "start (close_all k n) = start n"
  "scan_ranges (close_all k n) = scan_ranges n"
  "num_scanners (close_all k n) = num_scanners n"
  "chunks_per_scanner (close_all k n) = chunks_per_scanner n"
  "running_threads (close_all k n) = running_threads n"
  "scanner_submit_count (close_all k n) = scanner_submit_count n"
  "pending_scanners (close_all k n) = pending_scanners n"
  "chunk_pool (close_all k n) = chunk_pool n"
  "capacity (close_all k n) = capacity n"
  by (induction k arbitrary: n; simp)+

lemma admit_all_frame [simp]:
  "status (admit_all scs a n) = status n"
  "start (admit_all scs a n) = start n"
  "scan_ranges (admit_all scs a n) = scan_ranges n"
  "num_scanners (admit_all scs a n) = num_scanners n"
  "chunks_per_scanner (admit_all scs a n) = chunks_per_scanner n"
  "capacity (admit_all scs a n) = capacity n"
  by (induction scs arbitrary: n; simp)+

lemma admit_all_pool_bound:
  "int (size_stack (chunk_pool n)) \<le> capacity n \<Longrightarrow>
   int (size_stack (chunk_pool (admit_all scs a n))) \<le> capacity n"
proof (induction scs arbitrary: n)
  case Nil thus ?case by simp
next
  case (Cons sc scs)
  from Cons.IH [of "admission sc a n"] admission_pool_bound [OF Cons.prems, of sc a]
  show ?case by simp
qed

lemma admit_all_latched:
  "\<not> ok (status n) \<Longrightarrow>
   scanner_submit_count (admit_all scs a n) = scanner_submit_count n \<and>
   running_threads (admit_all scs a n) = running_threads n"
proof (induction scs arbitrary: n)
  case Nil thus ?case by simp
next
  case (Cons sc scs)
  from Cons.IH [of "admission sc a n"] admission_latched [OF Cons.prems, of sc a] Cons.prems
  show ?case by simp
qed

subsection \<open>The latch\<close>

lemma scan_op_latched:
  assumes "\<not> ok (status n)"
  shows "status (scan_op op n) = status n \<and>
         scanner_submit_count (scan_op op n) = scanner_submit_count n \<and>
         running_threads (scan_op op n) \<le> running_threads n"
proof (cases op)
  case (UpdateStatus st)
  thus ?thesis using assms by (simp add: update_status_latched)
next
  case (Admit sc a)
  thus ?thesis using admission_latched [OF assms, of sc a] by simp
next
  case (ChunkReturned c a)
  show ?thesis
  proof (cases "pop (pending_scanners (release c n))")
    case None
    thus ?thesis using ChunkReturned by (simp add: chunk_returned_def)
  next
    case (Some p)
    obtain sc rest where p: "p = (sc, rest)" by (cases p)
    let ?n1 = "(release c n)\<lparr>pending_scanners := rest\<rparr>"
    have "\<not> ok (status ?n1)" using assms by simp
    from admission_latched [OF this, of sc a]
    show ?thesis using ChunkReturned Some p by (simp add: chunk_returned_def)
  qed
next
  case (ScannerThread sc c outcome a)
  show ?thesis
  proof (cases outcome)
    case Filled
    let ?n2 = "n\<lparr>running_threads := running_threads n - 1,
                  result_chunks := result_chunks n @ [c]\<rparr>"
    have "\<not> ok (status ?n2)" using assms by simp
    from admission_latched [OF this, of sc a]
    show ?thesis using ScannerThread Filled by (simp add: scanner_thread_def)
  next
    case Exhausted
    thus ?thesis using ScannerThread by (simp add: scanner_thread_def)
  next
    case (Failed k msg)
    let ?n1 = "release c (n\<lparr>running_threads := running_threads n - 1\<rparr>)"
    have "\<not> ok (status ?n1)" using assms by simp
    hence "update_status (Error k msg) ?n1 = ?n1" by (rule update_status_latched)
    thus ?thesis using ScannerThread Failed by (simp add: scanner_thread_def)
  qed
next
  case (FillChunkPool cs)
  thus ?thesis by simp
next
  case ClosePendingScanners
  thus ?thesis by (simp add: close_pending_scanners_def)
next
  case (SetScanRanges ranges)
  thus ?thesis by (simp add: set_scan_ranges_def)
next
  case (StartScan chunks a)
  show ?thesis
  proof (cases "start n")
    case True
    thus ?thesis using StartScan by (simp add: start_scan_def)
  next
    case False
    let ?n2 = "fill_chunk_pool chunks
                 (n\<lparr>start := True, num_scanners := int (length (scan_ranges n))\<rparr>)"
    have "\<not> ok (status ?n2)" using assms by simp
    from admit_all_latched [OF this, of "[0 ..< length (scan_ranges n)]" a]
    show ?thesis using StartScan False by (simp add: start_scan_def)
  qed
qed

lemma scan_ops_latched:
  "\<not> ok (status n) \<Longrightarrow>
   status (scan_ops ops n) = status n \<and>
   scanner_submit_count (scan_ops ops n) = scanner_submit_count n \<and>
   running_threads (scan_ops ops n) \<le> running_threads n"
proof (induction ops arbitrary: n)
  case Nil thus ?case by simp
next
  case (Cons op ops)
  from scan_op_latched [OF Cons.prems, of op]
  have s: "status (scan_op op n) = status n"
    and c: "scanner_submit_count (scan_op op n) = scanner_submit_count n"
    and r: "running_threads (scan_op op n) \<le> running_threads n" by simp_all
  from s Cons.prems have "\<not> ok (status (scan_op op n))" by simp
  from Cons.IH [OF this] s c r show ?case by simp
qed


subsection \<open>The chunk pool's bound\<close>

lemma pool_bounded_same_settings:
  assumes "pool_bounded n"
      and "int (size_stack (chunk_pool n')) \<le> capacity n"
      and "start n' = start n" "num_scanners n' = num_scanners n"
      and "chunks_per_scanner n' = chunks_per_scanner n"
  shows "pool_bounded n'"
  using assms by (simp add: pool_bounded_def capacity_def)

lemma pool_bounded_size: "pool_bounded n \<Longrightarrow> int (size_stack (chunk_pool n)) \<le> capacity n"
  by (simp add: pool_bounded_def)

lemma scan_op_pool_bounded:
  assumes inv: "pool_bounded n"
  shows "pool_bounded (scan_op op n)"
proof (cases op)
  case (UpdateStatus st)
  thus ?thesis using inv by (simp add: pool_bounded_def)
next
  case (Admit sc a)
  from admission_pool_bound [OF pool_bounded_size [OF inv], of sc a]
  show ?thesis using Admit by (simp add: pool_bounded_same_settings [OF inv])
next
  case (ChunkReturned c a)
  have r: "int (size_stack (chunk_pool (release c n))) \<le> capacity n"
    by (rule release_pool_bound [OF pool_bounded_size [OF inv]])
  show ?thesis
  proof (cases "pop (pending_scanners (release c n))")
    case None
    thus ?thesis using ChunkReturned r
      by (simp add: chunk_returned_def pool_bounded_same_settings [OF inv])
  next
    case (Some p)
    obtain sc rest where p: "p = (sc, rest)" by (cases p)
    let ?n1 = "(release c n)\<lparr>pending_scanners := rest\<rparr>"
    have c1: "capacity ?n1 = capacity n" by (simp add: capacity_def)
    have "int (size_stack (chunk_pool ?n1)) \<le> capacity ?n1" using r by (simp add: c1)
    from admission_pool_bound [OF this, of sc a]
    have "int (size_stack (chunk_pool (admission sc a ?n1))) \<le> capacity n" by (simp add: c1)
    thus ?thesis using ChunkReturned Some p
      by (simp add: chunk_returned_def pool_bounded_same_settings [OF inv])
  qed
next
  case (ScannerThread sc c outcome a)
  let ?n1 = "n\<lparr>running_threads := running_threads n - 1\<rparr>"
  have c1: "capacity ?n1 = capacity n" by (simp add: capacity_def)
  have b1: "int (size_stack (chunk_pool ?n1)) \<le> capacity ?n1"
    using pool_bounded_size [OF inv] by (simp add: c1)
  have r: "int (size_stack (chunk_pool (release c ?n1))) \<le> capacity n"
    using release_pool_bound [OF b1, of c] by (simp add: c1)
  show ?thesis
  proof (cases outcome)
    case Filled
    let ?n2 = "?n1\<lparr>result_chunks := result_chunks ?n1 @ [c]\<rparr>"
    have c2: "capacity ?n2 = capacity n" by (simp add: capacity_def)
    have "int (size_stack (chunk_pool ?n2)) \<le> capacity ?n2"
      using pool_bounded_size [OF inv] by (simp add: capacity_def)
    from admission_pool_bound [OF this, of sc a]
    have "int (size_stack (chunk_pool (admission sc a ?n2))) \<le> capacity n"
      by (simp add: capacity_def)
    thus ?thesis using ScannerThread Filled
      by (simp add: scanner_thread_def pool_bounded_same_settings [OF inv])
  next
    case Exhausted
    thus ?thesis using ScannerThread r
      by (simp add: scanner_thread_def pool_bounded_same_settings [OF inv])
  next
    case (Failed k msg)
    thus ?thesis using ScannerThread r
      by (simp add: scanner_thread_def pool_bounded_same_settings [OF inv])
  qed
next
  case (FillChunkPool cs)
  from fill_chunk_pool_bound [OF pool_bounded_size [OF inv], of cs]
  show ?thesis using FillChunkPool by (simp add: pool_bounded_same_settings [OF inv])
next
  case ClosePendingScanners
  thus ?thesis using pool_bounded_size [OF inv]
    by (simp add: close_pending_scanners_def pool_bounded_same_settings [OF inv])
next
  case (SetScanRanges ranges)
  thus ?thesis using pool_bounded_size [OF inv]
    by (simp add: set_scan_ranges_def pool_bounded_same_settings [OF inv])
next
  case (StartScan chunks a)
  show ?thesis
  proof (cases "start n")
    case True
    thus ?thesis using StartScan inv by (simp add: start_scan_def)
  next
    case False
    let ?n1 = "n\<lparr>start := True, num_scanners := int (length (scan_ranges n))\<rparr>"
    let ?n2 = "fill_chunk_pool chunks ?n1"
    let ?scs = "[0 ..< length (scan_ranges n)]"
    from inv False have "num_scanners n = 0" and "int (size_stack (chunk_pool n)) \<le> capacity n"
      and cps: "0 \<le> chunks_per_scanner n"
      by (simp_all add: pool_bounded_def)
    hence z: "size_stack (chunk_pool n) = 0" by (simp add: capacity_def)
    have "int (size_stack (chunk_pool ?n1)) \<le> capacity ?n1"
      using z cps by (simp add: capacity_def)
    hence "int (size_stack (chunk_pool ?n2)) \<le> capacity ?n1" by (rule fill_chunk_pool_bound)
    hence "int (size_stack (chunk_pool ?n2)) \<le> capacity ?n2" by simp
    from admit_all_pool_bound [OF this, of ?scs a]
    have "int (size_stack (chunk_pool (admit_all ?scs a ?n2))) \<le> capacity (admit_all ?scs a ?n2)"
      by simp
    moreover have "start (admit_all ?scs a ?n2)" by simp
    moreover have "0 \<le> chunks_per_scanner (admit_all ?scs a ?n2)" using cps by simp
    ultimately have "pool_bounded (admit_all ?scs a ?n2)" by (simp add: pool_bounded_def)
    thus ?thesis using StartScan False by (simp add: start_scan_def Let_def)
  qed
qed

lemma scan_ops_pool_bounded: "pool_bounded n \<Longrightarrow> pool_bounded (scan_ops ops n)"
  by (induction ops arbitrary: n) (simp_all add: scan_op_pool_bounded)

lemma scan_op_chunks_per_scanner [simp]:
  "chunks_per_scanner (scan_op op n) = chunks_per_scanner n"
proof (cases op)
  case (ChunkReturned c a)
  thus ?thesis
    by (cases "pop (pending_scanners (release c n))") (auto simp: chunk_returned_def)
next
  case (ScannerThread sc c outcome a)
  thus ?thesis by (cases outcome) (simp_all add: scanner_thread_def)
qed (simp_all add: close_pending_scanners_def set_scan_ranges_def start_scan_def Let_def)

lemma scan_ops_chunks_per_scanner [simp]:
  "chunks_per_scanner (scan_ops ops n) = chunks_per_scanner n"
  by (induction ops arbitrary: n) simp_all

lemma new_pool_bounded: "pool_bounded OlapScanNode_new"
  by (simp add: pool_bounded_def OlapScanNode_new_def capacity_def size_stack_def)

subsection \<open>Scan ranges and the start flag\<close>

lemma scan_op_started:
  assumes "start n"
  shows "start (scan_op op n) \<and> scan_ranges (scan_op op n) = scan_ranges n"
proof (cases op)
  case (ChunkReturned c a)
  thus ?thesis using assms
    by (cases "pop (pending_scanners (release c n))") (auto simp: chunk_returned_def)
next
  case (ScannerThread sc c outcome a)
  thus ?thesis using assms by (cases outcome) (simp_all add: scanner_thread_def)
qed (simp_all add: assms close_pending_scanners_def set_scan_ranges_def start_scan_def)

lemma scan_ops_started:
  "start n \<Longrightarrow> start (scan_ops ops n) \<and> scan_ranges (scan_ops ops n) = scan_ranges n"
proof (induction ops arbitrary: n)
  case Nil thus ?case by simp
next
  case (Cons op ops)
  from scan_op_started [OF Cons.prems, of op] Cons.IH [of "scan_op op n"]
  show ?case by simp
qed

lemma start_scan_starts:
  "start (start_scan chunks a n) \<and> scan_ranges (start_scan chunks a n) = scan_ranges n"
  by (simp add: start_scan_def Let_def)

subsection \<open>Parking and re-admission\<close>














section \<open>Properties of the program\<close>

text \<open>
  C5. The stack is last-in first-out: popping right after pushing \<open>v\<close> onto any stack
  \<open>s\<close> returns \<open>v\<close> and leaves \<open>s\<close>; and after pushing a run of elements, popping as
  many times returns them newest first and leaves the stack as it was, so each pop takes
  the most recently pushed element that is still there.
\<close>

theorem Stack_lifo:
  "pop (push v s) = Some (v, s) \<and> pop_n (length vs) (push_all vs s) = Some (rev vs, s)"
  by (simp add: pop_push pop_n_push_all)

text \<open>
  C1. The scan status is latched. A write lands while the status is OK; once the stored
  status is not OK, no run of \<open>_update_status\<close> calls changes it, and after any run of
  operations of the node \<open>_get_status\<close> still returns it, no scanner has been submitted
  (the submission count is the same) and the running count has not grown.
\<close>

theorem status_latched_first_error_wins:
  "(ok (status n) \<longrightarrow> status (update_status st n) = st)
   \<and> (\<not> ok (status n) \<longrightarrow>
        status (scan_ops (map UpdateStatus sts) n) = status n
        \<and> get_status (scan_ops ops n) = status n
        \<and> scanner_submit_count (scan_ops ops n) = scanner_submit_count n
        \<and> running_threads (scan_ops ops n) \<le> running_threads n)"
proof (intro conjI impI)
  assume "ok (status n)"
  thus "status (update_status st n) = st" by (simp add: update_status_def)
next
  assume e: "\<not> ok (status n)"
  from scan_ops_latched [OF e, of "map UpdateStatus sts"]
  show "status (scan_ops (map UpdateStatus sts) n) = status n" by simp
  from scan_ops_latched [OF e, of ops]
  show "get_status (scan_ops ops n) = status n"
    and "scanner_submit_count (scan_ops ops n) = scanner_submit_count n"
    and "running_threads (scan_ops ops n) \<le> running_threads n"
    by (simp_all add: get_status_def)
qed

text \<open>
  C1, at sample inputs: a first error written to a new node is stored; on the node whose
  latch holds the read failure, later writes (an OK and an open failure) leave it, and
  after an admission with a chunk available, a returned chunk and a late failing worker
  the status read is still the read failure and nothing was submitted.
\<close>

theorem status_latched_first_error_wins_witness:
  "ok (status OlapScanNode_new)
   \<and> status (update_status (Error ReadFailure ''io'') OlapScanNode_new) = Error ReadFailure ''io''
   \<and> \<not> ok (status failed_node)
   \<and> status (scan_ops (map UpdateStatus [OK, Error OpenFailure ''late'']) failed_node)
       = Error ReadFailure ''io''
   \<and> get_status (scan_ops [Admit 0 True, ChunkReturned 9 True,
                            ScannerThread 1 8 (Failed OpenFailure ''late'') True] failed_node)
       = Error ReadFailure ''io''
   \<and> scanner_submit_count (scan_ops [Admit 0 True, ChunkReturned 9 True,
                            ScannerThread 1 8 (Failed OpenFailure ''late'') True] failed_node) = 2"
proof -
  have a: "ok (status OlapScanNode_new)" by (simp add: OlapScanNode_new_def)
  have b: "\<not> ok (status failed_node)" by (simp add: failed_node_def)
  have c: "status failed_node = Error ReadFailure ''io''"
    and d: "scanner_submit_count failed_node = 2"
    by (simp_all add: failed_node_def OlapScanNode_new_def)
  from status_latched_first_error_wins [of OlapScanNode_new "Error ReadFailure ''io''"] a
  have "status (update_status (Error ReadFailure ''io'') OlapScanNode_new) = Error ReadFailure ''io''"
    by blast
  moreover
  from status_latched_first_error_wins
         [of failed_node OK "[OK, Error OpenFailure ''late'']"
             "[Admit 0 True, ChunkReturned 9 True,
               ScannerThread 1 8 (Failed OpenFailure ''late'') True]"] b
  have "status (scan_ops (map UpdateStatus [OK, Error OpenFailure ''late'']) failed_node)
          = status failed_node
        \<and> get_status (scan_ops [Admit 0 True, ChunkReturned 9 True,
                            ScannerThread 1 8 (Failed OpenFailure ''late'') True] failed_node)
          = status failed_node
        \<and> scanner_submit_count (scan_ops [Admit 0 True, ChunkReturned 9 True,
                            ScannerThread 1 8 (Failed OpenFailure ''late'') True] failed_node)
          = scanner_submit_count failed_node"
    by blast
  ultimately show ?thesis using a b c d by simp
qed



text \<open>
  C4. A new node has \<open>chunks_per_scanner = 10\<close>, and no operation changes it. After any run
  of operations on a new node the chunk pool holds at most
  \<open>num_scanners \<times> chunks_per_scanner\<close> chunks. \<open>release\<close> on a pool at capacity changes
  nothing, the chunk is dropped; and \<open>release\<close> keeps a pool within its capacity within
  it.
\<close>

theorem chunk_pool_bounded:
  "chunks_per_scanner OlapScanNode_new = 10
   \<and> chunks_per_scanner (scan_ops ops OlapScanNode_new) = 10
   \<and> int (size_stack (chunk_pool (scan_ops ops OlapScanNode_new)))
       \<le> num_scanners (scan_ops ops OlapScanNode_new)
           * chunks_per_scanner (scan_ops ops OlapScanNode_new)
   \<and> (capacity n \<le> int (size_stack (chunk_pool n)) \<longrightarrow> release c n = n)
   \<and> (int (size_stack (chunk_pool n)) \<le> capacity n \<longrightarrow>
        int (size_stack (chunk_pool (release c n))) \<le> capacity (release c n))"
proof (intro conjI impI)
  show "chunks_per_scanner OlapScanNode_new = 10" by (simp add: OlapScanNode_new_def)
  thus "chunks_per_scanner (scan_ops ops OlapScanNode_new) = 10" by simp
  from scan_ops_pool_bounded [OF new_pool_bounded, of ops]
  show "int (size_stack (chunk_pool (scan_ops ops OlapScanNode_new)))
          \<le> num_scanners (scan_ops ops OlapScanNode_new)
              * chunks_per_scanner (scan_ops ops OlapScanNode_new)"
    by (simp add: pool_bounded_def capacity_def)
next
  assume "capacity n \<le> int (size_stack (chunk_pool n))"
  thus "release c n = n" by (rule release_at_capacity)
next
  assume "int (size_stack (chunk_pool n)) \<le> capacity n"
  from release_pool_bound [OF this, of c]
  show "int (size_stack (chunk_pool (release c n))) \<le> capacity (release c n)" by simp
qed

text \<open>
  C4, at sample inputs: a new node has capacity 0, so a released chunk is dropped; the
  node with one chunk and capacity 600 stays within its capacity when one is released.
\<close>

theorem chunk_pool_bounded_witness:
  "capacity OlapScanNode_new \<le> int (size_stack (chunk_pool OlapScanNode_new))
   \<and> release 3 OlapScanNode_new = OlapScanNode_new
   \<and> int (size_stack (chunk_pool saturated_node)) \<le> capacity saturated_node
   \<and> int (size_stack (chunk_pool (release 3 saturated_node)))
       \<le> capacity (release 3 saturated_node)"
proof -
  have a: "capacity OlapScanNode_new \<le> int (size_stack (chunk_pool OlapScanNode_new))"
    by (simp add: OlapScanNode_new_def capacity_def size_stack_def)
  have b: "int (size_stack (chunk_pool saturated_node)) \<le> capacity saturated_node"
    by (simp add: saturated_node_def OlapScanNode_new_def capacity_def size_stack_def)
  from chunk_pool_bounded [of "[]" OlapScanNode_new 3] a
  have "release 3 OlapScanNode_new = OlapScanNode_new" by blast
  moreover
  from chunk_pool_bounded [of "[]" saturated_node 3] b
  have "int (size_stack (chunk_pool (release 3 saturated_node)))
          \<le> capacity (release 3 saturated_node)" by blast
  ultimately show ?thesis using a b by simp
qed

text \<open>
  C7. \<open>set_scan_ranges\<close> returns OK exactly when the start flag is not set. With the flag
  set it returns a failure and leaves the node, and so the registered ranges, as they
  were. Starting the scan sets the flag and no operation clears it: after
  \<open>_start_scan\<close> and any run of operations, \<open>set_scan_ranges\<close> fails and the registered
  ranges are those from before the start.
\<close>

theorem set_scan_ranges_only_before_start:
  "(ok (fst (set_scan_ranges ranges n)) \<longleftrightarrow> \<not> start n)
   \<and> (start n \<longrightarrow> \<not> ok (fst (set_scan_ranges ranges n)) \<and> snd (set_scan_ranges ranges n) = n)
   \<and> \<not> ok (fst (set_scan_ranges ranges (scan_ops ops (start_scan chunks a n))))
   \<and> scan_ranges (snd (set_scan_ranges ranges (scan_ops ops (start_scan chunks a n))))
       = scan_ranges n"
proof -
  let ?n' = "scan_ops ops (start_scan chunks a n)"
  from start_scan_starts [of chunks a n]
  have "start (start_scan chunks a n)" and r: "scan_ranges (start_scan chunks a n) = scan_ranges n"
    by simp_all
  from scan_ops_started [OF this(1), of ops] r
  have "start ?n'" and "scan_ranges ?n' = scan_ranges n" by simp_all
  thus ?thesis by (simp add: set_scan_ranges_def)
qed

text \<open>
  C7, at sample inputs: on the node that registered ranges 11 and 12 and then started,
  registering range 13 fails and changes nothing; on a new node it succeeds.
\<close>

theorem set_scan_ranges_only_before_start_witness:
  "start started_node
   \<and> \<not> ok (fst (set_scan_ranges [13] started_node))
   \<and> snd (set_scan_ranges [13] started_node) = started_node
   \<and> scan_ranges started_node = [11, 12]
   \<and> \<not> start OlapScanNode_new
   \<and> ok (fst (set_scan_ranges [13] OlapScanNode_new))"
proof -
  have a: "start started_node" and r: "scan_ranges started_node = [11, 12]"
    by (simp_all add: started_node_def start_scan_starts set_scan_ranges_def OlapScanNode_new_def)
  have b: "\<not> start OlapScanNode_new" by (simp add: OlapScanNode_new_def)
  from set_scan_ranges_only_before_start [of "[13]" started_node "[]" "[]" True] a
  have "\<not> ok (fst (set_scan_ranges [13] started_node))
        \<and> snd (set_scan_ranges [13] started_node) = started_node" by blast
  moreover
  from set_scan_ranges_only_before_start [of "[13]" OlapScanNode_new "[]" "[]" True] b
  have "ok (fst (set_scan_ranges [13] OlapScanNode_new))" by blast
  ultimately show ?thesis using a r b by simp
qed

text \<open>
  C8, as stated, fails for a \<open>FLOAT\<close> column: the batch NaN, 1, 2 is added to a new
  writer. \<open>std::minmax_element\<close> returns NaN as the smallest element and 2 as the largest;
  NaN is not smaller than the page minimum, so the minimum stays at the field's largest
  value, above the batch's 1 and 2.
\<close>

theorem add_values_nan_counterexample:
  "map_option page_zone_map
     (add_values [NaN, Num 1, Num 2] 3 (ZoneMapIndexWriterImpl_new float_field))
     = Some \<lparr>min_value = Num FLT_MAX, max_value = Num 2, has_null = False, has_not_null = True\<rparr>
   \<and> \<not> cpp_less_eq float_field (Num FLT_MAX) (Num 1)"
  by (simp add: add_values_def ZoneMapIndexWriterImpl_new_def reset_zone_map_def Let_def
      float_field_def FLT_MAX_def)

text \<open>
  C8, amended: for a call \<open>add_values(values, count)\<close> with \<open>count > 0\<close>, on a buffer that
  holds \<open>count\<close> values, where the value type's \<open><\<close> orders the batch and the page's two
  bounds linearly (as it does for every instantiation but \<open>FLOAT\<close> and \<open>DOUBLE\<close>, and for
  those when no NaN is involved), the page zone map afterwards has \<open>has_not_null\<close> set
  and \<open>min_value <= v <= max_value\<close> for every value \<open>v\<close> of the batch. With \<open>count = 0\<close>
  the writer, and so the page zone map, is unchanged.
\<close>

theorem add_values_page_zone_map:
  "(ordered_on (field_of w)
      (insert (min_value (page_zone_map w))
         (insert (max_value (page_zone_map w)) (set (take count vals))))
    \<and> 0 < count \<and> count \<le> length vals \<longrightarrow>
      (\<exists>w'. add_values vals count w = Some w' \<and>
            has_not_null (page_zone_map w') \<and>
            (\<forall>v \<in> set (take count vals).
               cpp_less_eq (field_of w) (min_value (page_zone_map w')) v \<and>
               cpp_less_eq (field_of w) v (max_value (page_zone_map w')))))
   \<and> add_values vals 0 w = Some w"
proof (intro conjI impI)
  let ?S = "insert (min_value (page_zone_map w))
              (insert (max_value (page_zone_map w)) (set (take count vals)))"
  assume "ordered_on (field_of w) ?S \<and> 0 < count \<and> count \<le> length vals"
  hence o: "ordered_on (field_of w) ?S" and pos: "0 < count" and len: "count \<le> length vals"
    by simp_all
  have "min_value (page_zone_map w) \<in> ?S" "max_value (page_zone_map w) \<in> ?S"
    "set (take count vals) \<subseteq> ?S" by auto
  from add_values_bounds [OF o this pos len]
  show "\<exists>w'. add_values vals count w = Some w' \<and>
            has_not_null (page_zone_map w') \<and>
            (\<forall>v \<in> set (take count vals).
               cpp_less_eq (field_of w) (min_value (page_zone_map w')) v \<and>
               cpp_less_eq (field_of w) v (max_value (page_zone_map w')))"
    by blast
next
  show "add_values vals 0 w = Some w" by (rule add_values_zero)
qed

text \<open>
  C8, amended, at sample inputs: the batch 3, 1, 2 added to a new writer for 8-bit
  values, and the batch 3, 1.5, 2 added to a new writer for single-precision values.
\<close>

theorem add_values_page_zone_map_witness:
  "(\<exists>w'. add_values [3, 1, 2] 3 (ZoneMapIndexWriterImpl_new tinyint_field) = Some w'
         \<and> has_not_null (page_zone_map w')
         \<and> min_value (page_zone_map w') \<le> 1 \<and> 3 \<le> max_value (page_zone_map w'))
   \<and> (\<exists>w'. add_values [Num 3, Num 1.5, Num 2] 3 (ZoneMapIndexWriterImpl_new float_field) = Some w'
         \<and> has_not_null (page_zone_map w')
         \<and> float_less_eq (min_value (page_zone_map w')) (Num 1.5)
         \<and> float_less_eq (Num 3) (max_value (page_zone_map w')))"
proof -
  let ?wi = "ZoneMapIndexWriterImpl_new tinyint_field"
  let ?wf = "ZoneMapIndexWriterImpl_new float_field"
  have oi: "ordered_on (field_of ?wi)
              (insert (min_value (page_zone_map ?wi))
                 (insert (max_value (page_zone_map ?wi)) (set (take 3 [3, 1, 2]))))"
    by (simp add: new_field tinyint_ordered_on)
  have "NaN \<notin> insert (min_value (page_zone_map ?wf))
                 (insert (max_value (page_zone_map ?wf)) (set (take 3 [Num 3, Num 1.5, Num 2])))"
    by (simp add: ZoneMapIndexWriterImpl_new_def reset_zone_map_def Let_def float_field_def)
  hence "ordered_on float_field
           (insert (min_value (page_zone_map ?wf))
              (insert (max_value (page_zone_map ?wf)) (set (take 3 [Num 3, Num 1.5, Num 2]))))"
    by (rule float_ordered_on)
  hence ofl: "ordered_on (field_of ?wf)
           (insert (min_value (page_zone_map ?wf))
              (insert (max_value (page_zone_map ?wf)) (set (take 3 [Num 3, Num 1.5, Num 2]))))"
    by (simp add: new_field)
  from add_values_page_zone_map [of ?wi 3 "[3, 1, 2]"] oi
  have "\<exists>w'. add_values [3, 1, 2] 3 ?wi = Some w' \<and> has_not_null (page_zone_map w') \<and>
            (\<forall>v \<in> set (take 3 [3, 1, 2]).
               cpp_less_eq (field_of ?wi) (min_value (page_zone_map w')) v \<and>
               cpp_less_eq (field_of ?wi) v (max_value (page_zone_map w')))"
    by simp
  hence a: "\<exists>w'. add_values [3, 1, 2] 3 ?wi = Some w' \<and> has_not_null (page_zone_map w') \<and>
              min_value (page_zone_map w') \<le> 1 \<and> 3 \<le> max_value (page_zone_map w')"
    by (auto simp: new_field tinyint_field_def)
  from add_values_page_zone_map [of ?wf 3 "[Num 3, Num 1.5, Num 2]"] ofl
  have "\<exists>w'. add_values [Num 3, Num 1.5, Num 2] 3 ?wf = Some w' \<and>
            has_not_null (page_zone_map w') \<and>
            (\<forall>v \<in> set (take 3 [Num 3, Num 1.5, Num 2]).
               cpp_less_eq (field_of ?wf) (min_value (page_zone_map w')) v \<and>
               cpp_less_eq (field_of ?wf) v (max_value (page_zone_map w')))"
    by simp
  hence b: "\<exists>w'. add_values [Num 3, Num 1.5, Num 2] 3 ?wf = Some w' \<and>
              has_not_null (page_zone_map w') \<and>
              float_less_eq (min_value (page_zone_map w')) (Num 1.5) \<and>
              float_less_eq (Num 3) (max_value (page_zone_map w'))"
    by (auto simp: new_field float_field_def)
  from a b show ?thesis by blast
qed

text \<open>
  C9, as stated, fails for a \<open>FLOAT\<close> column: the batch NaN, 1, 2 is added to a new
  writer and the page is flushed. The page minimum was left at the field's largest value,
  the segment minimum takes it, and the flushed values 1 and 2 lie below it.
\<close>

theorem flush_nan_counterexample:
  "map_option segment_zone_map
     (writer_calls serialize_ok [AddValues [NaN, Num 1, Num 2] 3, Flush]
        (ZoneMapIndexWriterImpl_new float_field))
     = Some \<lparr>min_value = Num FLT_MAX, max_value = Num 2, has_null = False, has_not_null = True\<rparr>
   \<and> flushed_values [AddValues [NaN, Num 1, Num 2] 3, Flush] [] [] = [NaN, Num 1, Num 2]
   \<and> \<not> cpp_less_eq float_field (Num FLT_MAX) (Num 1)"
  by (simp add: add_values_def flush_def compare_def serialize_ok_def
      ZoneMapIndexWriterImpl_new_def reset_zone_map_def Let_def float_field_def FLT_MAX_def)

text \<open>
  C9, amended: \<open>flush\<close> folds the page zone map into the segment zone map. Where the value
  type's \<open><\<close> orders the two minima, the segment minimum becomes the smaller of the two;
  where it orders the two maxima, the segment maximum becomes the larger of the two; each
  flag becomes the disjunction of the two flags; and the page zone map is reset. This
  holds whatever status \<open>flush\<close> returns. Hence, after any run of \<open>add_values\<close>,
  \<open>add_nulls\<close> and \<open>flush\<close> calls on a new writer, where \<open><\<close> orders the added values and
  the field's two extreme values linearly (no NaN is added), the segment zone map bounds
  every value of every flushed page.
\<close>

theorem flush_folds_page_into_segment:
  "(ordered_on (field_of w)
      {min_value (segment_zone_map w), min_value (page_zone_map w)} \<longrightarrow>
      (min_value (segment_zone_map (snd (flush ser w))) = min_value (segment_zone_map w) \<or>
       min_value (segment_zone_map (snd (flush ser w))) = min_value (page_zone_map w))
      \<and> cpp_less_eq (field_of w) (min_value (segment_zone_map (snd (flush ser w))))
            (min_value (segment_zone_map w))
      \<and> cpp_less_eq (field_of w) (min_value (segment_zone_map (snd (flush ser w))))
            (min_value (page_zone_map w)))
   \<and> (ordered_on (field_of w)
      {max_value (segment_zone_map w), max_value (page_zone_map w)} \<longrightarrow>
      (max_value (segment_zone_map (snd (flush ser w))) = max_value (segment_zone_map w) \<or>
       max_value (segment_zone_map (snd (flush ser w))) = max_value (page_zone_map w))
      \<and> cpp_less_eq (field_of w) (max_value (segment_zone_map w))
            (max_value (segment_zone_map (snd (flush ser w))))
      \<and> cpp_less_eq (field_of w) (max_value (page_zone_map w))
            (max_value (segment_zone_map (snd (flush ser w)))))
   \<and> has_null (segment_zone_map (snd (flush ser w)))
       = (has_null (segment_zone_map w) \<or> has_null (page_zone_map w))
   \<and> has_not_null (segment_zone_map (snd (flush ser w)))
       = (has_not_null (segment_zone_map w) \<or> has_not_null (page_zone_map w))
   \<and> page_zone_map (snd (flush ser w)) =
       \<lparr>min_value = set_to_max (field_of w), max_value = set_to_min (field_of w),
        has_null = False, has_not_null = False\<rparr>
   \<and> (ordered_on f (insert (set_to_max f) (insert (set_to_min f) (set (added_values cs))))
       \<and> writer_calls ser cs (ZoneMapIndexWriterImpl_new f) = Some w' \<longrightarrow>
        (\<forall>v \<in> set (flushed_values cs [] []).
           cpp_less_eq f (min_value (segment_zone_map w')) v \<and>
           cpp_less_eq f v (max_value (segment_zone_map w'))))"
proof (intro conjI impI)
  assume o: "ordered_on (field_of w) {min_value (segment_zone_map w), min_value (page_zone_map w)}"
  note mn = flush_min_on [OF o, of ser]
  show "min_value (segment_zone_map (snd (flush ser w))) = min_value (segment_zone_map w) \<or>
        min_value (segment_zone_map (snd (flush ser w))) = min_value (page_zone_map w)"
    by (rule mn(2)) simp_all
  show "cpp_less_eq (field_of w) (min_value (segment_zone_map (snd (flush ser w))))
          (min_value (segment_zone_map w))"
    by (rule mn(3)) simp_all
  show "cpp_less_eq (field_of w) (min_value (segment_zone_map (snd (flush ser w))))
          (min_value (page_zone_map w))"
    by (rule mn(4)) simp_all
next
  assume o: "ordered_on (field_of w) {max_value (segment_zone_map w), max_value (page_zone_map w)}"
  note mx = flush_max_on [OF o, of ser]
  show "max_value (segment_zone_map (snd (flush ser w))) = max_value (segment_zone_map w) \<or>
        max_value (segment_zone_map (snd (flush ser w))) = max_value (page_zone_map w)"
    by (rule mx(2)) simp_all
  show "cpp_less_eq (field_of w) (max_value (segment_zone_map w))
          (max_value (segment_zone_map (snd (flush ser w))))"
    by (rule mx(3)) simp_all
  show "cpp_less_eq (field_of w) (max_value (page_zone_map w))
          (max_value (segment_zone_map (snd (flush ser w))))"
    by (rule mx(4)) simp_all
next
  show "has_null (segment_zone_map (snd (flush ser w)))
          = (has_null (segment_zone_map w) \<or> has_null (page_zone_map w))"
    by (simp add: flush_segment)
  show "has_not_null (segment_zone_map (snd (flush ser w)))
          = (has_not_null (segment_zone_map w) \<or> has_not_null (page_zone_map w))"
    by (simp add: flush_segment)
  show "page_zone_map (snd (flush ser w)) =
          \<lparr>min_value = set_to_max (field_of w), max_value = set_to_min (field_of w),
           has_null = False, has_not_null = False\<rparr>"
    by (rule flush_page)
next
  assume "ordered_on f (insert (set_to_max f) (insert (set_to_min f) (set (added_values cs))))
          \<and> writer_calls ser cs (ZoneMapIndexWriterImpl_new f) = Some w'"
  hence o: "ordered_on f (insert (set_to_max f) (insert (set_to_min f) (set (added_values cs))))"
    and run: "writer_calls ser cs (ZoneMapIndexWriterImpl_new f) = Some w'" by simp_all
  from writer_calls_segment_bounds [OF o run]
  show "\<forall>v \<in> set (flushed_values cs [] []).
           cpp_less_eq f (min_value (segment_zone_map w')) v \<and>
           cpp_less_eq f v (max_value (segment_zone_map w'))"
    by (simp add: bounds_def)
qed

text \<open>
  C9, amended, at sample inputs: the writer that holds the batch 3, 1, 2 in its page is
  flushed, and the segment bounds then enclose 1 and 3; in the run of two pages the
  values 3, 1, 2 and 7 are flushed and the segment bounds enclose 1 and 7.
\<close>

theorem flush_folds_page_into_segment_witness:
  "add_values [3, 1, 2] 3 (ZoneMapIndexWriterImpl_new tinyint_field) = Some one_page
   \<and> min_value (segment_zone_map (snd (flush serialize_ok one_page))) \<le> 1
   \<and> 3 \<le> max_value (segment_zone_map (snd (flush serialize_ok one_page)))
   \<and> flushed_values two_pages [] [] = [3, 1, 2, 7]
   \<and> (\<exists>w'. writer_calls serialize_ok two_pages (ZoneMapIndexWriterImpl_new tinyint_field) = Some w'
         \<and> min_value (segment_zone_map w') \<le> 1 \<and> 7 \<le> max_value (segment_zone_map w'))"
proof -
  have r: "add_values [3, 1, 2] 3 (ZoneMapIndexWriterImpl_new tinyint_field) = Some one_page"
    by (simp add: add_values_def one_page_def ZoneMapIndexWriterImpl_new_def reset_zone_map_def
        Let_def tinyint_field_def)
  have fo: "field_of one_page = tinyint_field"
    by (simp add: one_page_def new_field)
  have pg: "min_value (page_zone_map one_page) = 1" "max_value (page_zone_map one_page) = 3"
    by (simp_all add: one_page_def)
  have o1: "ordered_on (field_of one_page)
              {min_value (segment_zone_map one_page), min_value (page_zone_map one_page)}"
    and o2: "ordered_on (field_of one_page)
              {max_value (segment_zone_map one_page), max_value (page_zone_map one_page)}"
    by (simp_all add: fo tinyint_ordered_on)
  have o3: "ordered_on tinyint_field
              (insert (set_to_max tinyint_field)
                 (insert (set_to_min tinyint_field) (set (added_values two_pages))))"
    by (rule tinyint_ordered_on)
  have f: "flushed_values two_pages [] [] = [3, 1, 2, 7]"
    by (simp add: two_pages_def)
  have "\<exists>w'. writer_calls serialize_ok two_pages (ZoneMapIndexWriterImpl_new tinyint_field)
               = Some w'"
    by (simp add: two_pages_def add_values_def add_nulls_def flush_def Let_def
        serialize_ok_def)
  then obtain w' where
    w: "writer_calls serialize_ok two_pages (ZoneMapIndexWriterImpl_new tinyint_field) = Some w'"
    by blast
  note t = flush_folds_page_into_segment
             [where w = one_page and ser = serialize_ok and f = tinyint_field
                and cs = two_pages and w' = w']
  from t o1 have
    "cpp_less_eq (field_of one_page)
       (min_value (segment_zone_map (snd (flush serialize_ok one_page))))
       (min_value (page_zone_map one_page))" by blast
  hence a: "min_value (segment_zone_map (snd (flush serialize_ok one_page))) \<le> 1"
    by (simp add: fo pg tinyint_field_def)
  from t o2 have
    "cpp_less_eq (field_of one_page) (max_value (page_zone_map one_page))
       (max_value (segment_zone_map (snd (flush serialize_ok one_page))))" by blast
  hence b: "3 \<le> max_value (segment_zone_map (snd (flush serialize_ok one_page)))"
    by (simp add: fo pg tinyint_field_def)
  from t o3 w have
    "\<forall>v \<in> set (flushed_values two_pages [] []).
       cpp_less_eq tinyint_field (min_value (segment_zone_map w')) v \<and>
       cpp_less_eq tinyint_field v (max_value (segment_zone_map w'))" by blast
  hence "min_value (segment_zone_map w') \<le> 1 \<and> 7 \<le> max_value (segment_zone_map w')"
    by (simp add: f tinyint_field_def)
  with r a b f w show ?thesis by blast
qed

text \<open>
  C10. \<open>_build_to_global_dict\<close> builds the mapping once. With a non-empty holder the call
  returns OK and changes nothing; after any call the holder is non-empty, so a second
  call returns OK and leaves the state of the first. A call on an empty holder returns
  \<open>InternalError\<close> exactly when some word of the local dictionary is not empty and is
  missing from the global dictionary, and returns OK otherwise.
\<close>

theorem build_to_global_dict_idempotent:
  "(local_to_global_holder it \<noteq> [] \<longrightarrow> build_to_global_dict t dict g it = (OK, it))
   \<and> build_to_global_dict t' dict' g' (snd (build_to_global_dict t dict g it)) =
       (OK, snd (build_to_global_dict t dict g it))
   \<and> (local_to_global_holder it = [] \<longrightarrow>
        ((\<exists>msg. fst (build_to_global_dict t dict g it) = Error InternalError msg) \<longleftrightarrow>
         (\<exists>s \<in> set dict. s \<noteq> [] \<and> g s = None))
        \<and> (fst (build_to_global_dict t dict g it) = OK \<longleftrightarrow>
         \<not> (\<exists>s \<in> set dict. s \<noteq> [] \<and> g s = None)))"
proof (intro conjI impI)
  assume "local_to_global_holder it \<noteq> []"
  thus "build_to_global_dict t dict g it = (OK, it)" by (simp add: build_again)
next
  show "build_to_global_dict t' dict' g' (snd (build_to_global_dict t dict g it)) =
          (OK, snd (build_to_global_dict t dict g it))"
  proof (cases "local_to_global_holder it = []")
    case True
    from build_first_holder [OF True, of t dict g]
    have "0 < length (local_to_global_holder (snd (build_to_global_dict t dict g it)))" by simp
    thus ?thesis by (rule build_again)
  next
    case False
    hence "build_to_global_dict t dict g it = (OK, it)" by (simp add: build_again)
    thus ?thesis using False by (simp add: build_again)
  qed
next
  assume e: "local_to_global_holder it = []"
  let ?st = "fst (build_codes t g dict [0 ..< length dict] [0 ..< length dict]
                    (replicate (length dict + 2) 0))"
  have st: "fst (build_to_global_dict t dict g it) = ?st" by (rule build_first_status [OF e])
  have err: "?st \<noteq> OK \<longleftrightarrow> (\<exists>s \<in> set dict. s \<noteq> [] \<and> g s = None)"
    unfolding build_codes_error missing_word_iff ..
  have alt: "?st = OK \<or> (\<exists>msg. ?st = Error InternalError msg)" by (rule build_codes_status)
  show "(\<exists>msg. fst (build_to_global_dict t dict g it) = Error InternalError msg) \<longleftrightarrow>
         (\<exists>s \<in> set dict. s \<noteq> [] \<and> g s = None)"
    using st err alt by auto
  show "fst (build_to_global_dict t dict g it) = OK \<longleftrightarrow>
         \<not> (\<exists>s \<in> set dict. s \<noteq> [] \<and> g s = None)"
    using st err by auto
qed

text \<open>
  C10, at sample inputs: the local dictionary holds \<open>a\<close>, the empty word and \<open>zz\<close>, and
  \<open>zz\<close> is missing from the global dictionary, so the first call fails; on an iterator
  whose holder is built, the call returns OK and changes nothing.
\<close>

theorem build_to_global_dict_idempotent_witness:
  "local_to_global_holder fresh_iterator = []
   \<and> (\<exists>s \<in> set [''a'', [], ''zz'']. s \<noteq> [] \<and> sample_global_dict s = None)
   \<and> (\<exists>msg. fst (build_to_global_dict sample_data_text [''a'', [], ''zz'']
                     sample_global_dict fresh_iterator)
              = Error InternalError msg)
   \<and> local_to_global_holder built_iterator \<noteq> []
   \<and> build_to_global_dict sample_data_text [''a''] sample_global_dict built_iterator
       = (OK, built_iterator)"
proof -
  have a: "local_to_global_holder fresh_iterator = []" by (simp add: fresh_iterator_def)
  have b: "\<exists>s \<in> set [''a'', [], ''zz'']. s \<noteq> [] \<and> sample_global_dict s = None"
    by (simp add: sample_global_dict_def)
  have c: "local_to_global_holder built_iterator \<noteq> []" by (simp add: built_iterator_def)
  from build_to_global_dict_idempotent
         [where it = fresh_iterator and t = sample_data_text and dict = "[''a'', [], ''zz'']"
                and g = sample_global_dict] a b
  have "\<exists>msg. fst (build_to_global_dict sample_data_text [''a'', [], ''zz'']
                      sample_global_dict fresh_iterator)
               = Error InternalError msg" by blast
  moreover
  from build_to_global_dict_idempotent
         [where it = built_iterator and t = sample_data_text and dict = "[''a'']"
                and g = sample_global_dict] c
  have "build_to_global_dict sample_data_text [''a''] sample_global_dict built_iterator
          = (OK, built_iterator)"
    by blast
  ultimately show ?thesis using a b c by blast
qed

end
